theory Spec2Isabelle
  imports Main
begin

section \<open>Class-level signals on top of blinker: the model\<close>

text \<open>
  The development embeds \<^verbatim>\<open>blinkerc/blinkerc.py\<close>. Classes, signal objects and
  closures are heap objects there; the model names each by a number and keeps the
  module's global tables in one record that every operation takes and returns.

  Three things come from outside the file and are modelled as Python and blinker
  define them:
  \<^item> attribute lookup on a class walks the method resolution order, so a class sees
    the \<^verbatim>\<open>signal_namespace\<close> of its nearest ancestor that has one;
  \<^item> \<^verbatim>\<open>Namespace.signal(name)\<close> returns the entry for the name and creates a new
    signal without receivers when there is none; \<^verbatim>\<open>Signal.connect(f)\<close> keeps one
    registration per callable and holds it weakly; \<^verbatim>\<open>Signal.send\<close> accepts one
    positional sender and calls every live receiver as \<^verbatim>\<open>receiver(sender, **kwargs)\<close>;
  \<^item> a call binds a keyword to the parameter of that name, and raises TypeError when
    the parameter already has a value.
\<close>

subsection \<open>Values\<close>

type_synonym cls = nat
type_synonym sid = nat

text \<open>\<^verbatim>\<open>class SignalSchema\<close>: the two fields set by \<^verbatim>\<open>__init__\<close>.\<close>

record SignalSchema =
  name :: string
  cascade :: bool

text \<open>
  An object is its identity together with its fields. \<^verbatim>\<open>SignalSchema\<close> defines
  \<^verbatim>\<open>__hash__\<close> and no \<^verbatim>\<open>__eq__\<close>, so \<^verbatim>\<open>==\<close> is the one inherited from
  \<^verbatim>\<open>object\<close>: identity. The hash of a string is a parameter.
\<close>

type_synonym schema_obj = "nat \<times> SignalSchema"

definition schema_eq :: "schema_obj \<Rightarrow> schema_obj \<Rightarrow> bool" where
  "schema_eq s t = (fst s = fst t)"

definition schema_hash :: "(string \<Rightarrow> int) \<Rightarrow> schema_obj \<Rightarrow> int" where
  "schema_hash str_hash s = str_hash (name (snd s))"

text \<open>Senders and payload values: a class, an instance of a class, a schema, anything else.\<close>

datatype pyval = Cls cls | Inst nat cls | Sch SignalSchema | Opaque nat

type_synonym kwargs = "(string \<times> pyval) list"

datatype error = ValueError string | TypeError string | AttributeError string

text \<open>
  A function of the caller's, connected as a handler: its \<^verbatim>\<open>__name__\<close> and its
  identity. The caller keeps it alive, it accepts any sender and payload, and calling
  it is recorded in the log of the state.
\<close>

datatype callable = Fn (fn_name: string) (fn_id: nat)

text \<open>
  The two closures built in \<^verbatim>\<open>signals_decorator\<close>: \<^verbatim>\<open>__cascade_padre\<close> returned by
  \<^verbatim>\<open>make_cascade(name)\<close> and \<^verbatim>\<open>__all_cascade_padre\<close> returned by
  \<^verbatim>\<open>make_all_cascade(name)\<close>, each with its identity and the name it captured.
\<close>

datatype closure = CascadePadre nat string | AllCascadePadre nat string

fun closure_id :: "closure \<Rightarrow> nat" where
  "closure_id (CascadePadre i nm) = i"
| "closure_id (AllCascadePadre i nm) = i"

text \<open>What a class-level signal holds: a handler of the caller's, or one of the closures.\<close>

datatype receiver = User callable | Padre closure

fun receiver_name :: "receiver \<Rightarrow> string" where
  "receiver_name (User f) = fn_name f"
| "receiver_name (Padre (CascadePadre i nm)) = ''__cascade_padre''"
| "receiver_name (Padre (AllCascadePadre i nm)) = ''__all_cascade_padre''"

type_synonym namespace = "(string \<times> sid) list"

type_synonym invocation = "callable \<times> pyval \<times> kwargs"

subsection \<open>The state\<close>

text \<open>
  \<^item> \<open>mro_tail c\<close>: the proper ancestors of \<open>c\<close> in linearization order, \<open>subclasses c\<close>:
    \<^verbatim>\<open>c.__subclasses__()\<close>;
  \<^item> \<open>signal_classes\<close>, \<open>base_signals\<close>: the module's globals. A base signal is never
    replaced, so it is identified with its name and holds the callers' handlers;
  \<^item> \<open>signal_namespace c\<close>: the attribute in the class's own dictionary;
  \<^item> \<open>cascade_attrs (c, a)\<close>: the closure stored as attribute \<open>a\<close> of class \<open>c\<close>;
  \<^item> \<open>receivers i\<close>: the live receivers of the class-level signal \<open>i\<close>;
  \<^item> \<open>next_sid\<close>, \<open>next_fid\<close>: the next unused identity of a signal and of a closure;
  \<^item> \<open>log\<close>: the calls of the callers' handlers, in order.
\<close>

record state =
  mro_tail :: "cls \<Rightarrow> cls list"
  subclasses :: "cls \<Rightarrow> cls list"
  signal_classes :: "cls set"
  base_signals :: "string \<rightharpoonup> callable list"
  signal_namespace :: "cls \<rightharpoonup> namespace"
  cascade_attrs :: "cls \<times> string \<rightharpoonup> closure"
  receivers :: "sid \<Rightarrow> receiver list"
  next_sid :: nat
  next_fid :: nat
  log :: "invocation list"

definition EVENT_TRIGGERED :: string where
  "EVENT_TRIGGERED = ''generic_event''"

text \<open>The class \<^verbatim>\<open>Signaler\<close> itself.\<close>

definition Signaler :: cls where
  "Signaler = 0"

text \<open>The module after import: \<^verbatim>\<open>base_signals.signal(EVENT_TRIGGERED)\<close> has run.\<close>

definition init_state :: state where
  "init_state = \<lparr> mro_tail = (\<lambda>c. []), subclasses = (\<lambda>c. []), signal_classes = {},
     base_signals = [EVENT_TRIGGERED \<mapsto> []], signal_namespace = Map.empty,
     cascade_attrs = Map.empty, receivers = (\<lambda>i. []), next_sid = 0, next_fid = 0,
     log = [] \<rparr>"

text \<open>\<^verbatim>\<open>class c(b): ...\<close> with one base, undecorated.\<close>

definition mro :: "state \<Rightarrow> cls \<Rightarrow> cls list" where
  "mro s c = c # mro_tail s c"

definition def_subclass :: "cls \<Rightarrow> cls \<Rightarrow> state \<Rightarrow> state" where
  "def_subclass c b s =
     s\<lparr> mro_tail := (mro_tail s)(c := mro s b),
        subclasses := (subclasses s)(b := subclasses s b @ [c], c := []) \<rparr>"

definition issubclass :: "state \<Rightarrow> cls \<Rightarrow> cls \<Rightarrow> bool" where
  "issubclass s c limit = (limit \<in> set (mro s c))"

text \<open>\<^verbatim>\<open>getattr(c, "signal_namespace")\<close>: the first class of the MRO that has it.\<close>

fun lookup_attr :: "(cls \<rightharpoonup> 'a) \<Rightarrow> cls list \<Rightarrow> 'a option" where
  "lookup_attr d [] = None"
| "lookup_attr d (p # ps) = (case d p of Some v \<Rightarrow> Some v | None \<Rightarrow> lookup_attr d ps)"

definition getattr_signal_namespace :: "state \<Rightarrow> cls \<Rightarrow> namespace option" where
  "getattr_signal_namespace s c = lookup_attr (signal_namespace s) (mro s c)"

subsection \<open>Dictionaries that keep insertion order\<close>

fun dict_set :: "'k \<Rightarrow> 'v \<Rightarrow> ('k \<times> 'v) list \<Rightarrow> ('k \<times> 'v) list" where
  "dict_set k v [] = [(k, v)]"
| "dict_set k v (e # d) = (if fst e = k then (k, v) # d else e # dict_set k v d)"

text \<open>\<^verbatim>\<open>{**var, **d}\<close>\<close>

definition dict_merge :: "('k \<times> 'v) list \<Rightarrow> ('k \<times> 'v) list \<Rightarrow> ('k \<times> 'v) list" where
  "dict_merge var d = fold (\<lambda>e acc. dict_set (fst e) (snd e) acc) d var"

definition keys :: "('k \<times> 'v) list \<Rightarrow> 'k set" where
  "keys d = fst ` set d"

subsection \<open>\<^verbatim>\<open>_merge_dict_class_vars\<close>\<close>

fun merge_loop :: "state \<Rightarrow> cls \<Rightarrow> cls list \<Rightarrow> namespace \<Rightarrow> namespace" where
  "merge_loop s limit_clz [] var = var"
| "merge_loop s limit_clz (pclz # rest) var =
     (case getattr_signal_namespace s pclz of
        Some d \<Rightarrow>
          (if issubclass s pclz limit_clz
           then merge_loop s limit_clz rest (dict_merge var d)
           else merge_loop s limit_clz rest var)
      | None \<Rightarrow> merge_loop s limit_clz rest var)"

definition merge_dict_class_vars :: "state \<Rightarrow> cls \<Rightarrow> cls \<Rightarrow> namespace" where
  "merge_dict_class_vars s clz limit_clz = merge_loop s limit_clz (mro s clz) []"

subsection \<open>blinker: namespaces and signals\<close>

text \<open>\<^verbatim>\<open>namespace.signal(nm)\<close>\<close>

definition namespace_signal :: "string \<Rightarrow> namespace \<Rightarrow> state \<Rightarrow> sid \<times> namespace \<times> state" where
  "namespace_signal nm ns s =
     (case map_of ns nm of
        Some i \<Rightarrow> (i, ns, s)
      | None \<Rightarrow>
          (next_sid s, ns @ [(nm, next_sid s)],
           s\<lparr> receivers := (receivers s)(next_sid s := []), next_sid := Suc (next_sid s) \<rparr>))"

text \<open>\<^verbatim>\<open>signal.connect(r)\<close>: one registration per callable.\<close>

definition signal_connect :: "sid \<Rightarrow> receiver \<Rightarrow> state \<Rightarrow> state" where
  "signal_connect i r s =
     (if r \<in> set (receivers s i) then s
      else s\<lparr> receivers := (receivers s)(i := receivers s i @ [r]) \<rparr>)"

text \<open>
  \<^verbatim>\<open>setattr(c, a, f)\<close> for a cascade attribute. The attribute held the only strong
  reference to the closure it replaces; the signals hold their receivers weakly, so
  the replaced closure leaves every signal it was connected to.
\<close>

definition setattr :: "cls \<Rightarrow> string \<Rightarrow> closure \<Rightarrow> state \<Rightarrow> state" where
  "setattr c a f s =
     (case cascade_attrs s (c, a) of
        None \<Rightarrow> s\<lparr> cascade_attrs := (cascade_attrs s)((c, a) \<mapsto> f) \<rparr>
      | Some old \<Rightarrow>
          s\<lparr> cascade_attrs := (cascade_attrs s)((c, a) \<mapsto> f),
             receivers := (\<lambda>i. removeAll (Padre old) (receivers s i)) \<rparr>)"

text \<open>Calling one receiver as \<^verbatim>\<open>receiver(sender, **kw)\<close>.\<close>

definition call_padre :: "string \<Rightarrow> pyval \<Rightarrow> kwargs \<Rightarrow> state \<Rightarrow> error option \<times> state" where
  "call_padre nm sender kw s =
     (if ''sender'' \<in> keys kw
      then (Some (TypeError ''got multiple values for argument sender''), s)
      else (case base_signals s nm of
              None \<Rightarrow> (Some (AttributeError ''send''), s)
            | Some hs \<Rightarrow> (None, s\<lparr> log := log s @ map (\<lambda>h. (h, sender, kw)) hs \<rparr>)))"

fun invoke :: "receiver \<Rightarrow> pyval \<Rightarrow> kwargs \<Rightarrow> state \<Rightarrow> error option \<times> state" where
  "invoke (User f) sender kw s = (None, s\<lparr> log := log s @ [(f, sender, kw)] \<rparr>)"
| "invoke (Padre (CascadePadre i nm)) sender kw s = call_padre nm sender kw s"
| "invoke (Padre (AllCascadePadre i nm)) sender kw s = call_padre nm sender kw s"

fun send_loop :: "receiver list \<Rightarrow> pyval \<Rightarrow> kwargs \<Rightarrow> state \<Rightarrow> error option \<times> state" where
  "send_loop [] sender kw s = (None, s)"
| "send_loop (r # rs) sender kw s =
     (case invoke r sender kw s of
        (Some e, s') \<Rightarrow> (Some e, s')
      | (None, s') \<Rightarrow> send_loop rs sender kw s')"

text \<open>\<^verbatim>\<open>signal.send(*sender, **kw)\<close> on a class-level signal.\<close>

definition signal_send :: "sid \<Rightarrow> pyval list \<Rightarrow> kwargs \<Rightarrow> state \<Rightarrow> error option \<times> state" where
  "signal_send i sender kw s =
     (case sender of
        [] \<Rightarrow> send_loop (receivers s i) (Opaque 0) kw s
      | [x] \<Rightarrow> send_loop (receivers s i) x kw s
      | x # y # zs \<Rightarrow> (Some (TypeError ''send() accepts only one positional argument''), s))"

subsection \<open>\<^verbatim>\<open>signals(*args)\<close> and its \<^verbatim>\<open>signals_decorator\<close>\<close>

datatype arg = StrArg string | SchemaArg SignalSchema

text \<open>\<^verbatim>\<open>if isinstance(schema, str): schema = SignalSchema(schema)\<close>\<close>

fun as_schema :: "arg \<Rightarrow> SignalSchema" where
  "as_schema (StrArg nm) = \<lparr> name = nm, cascade = False \<rparr>"
| "as_schema (SchemaArg sc) = sc"

definition cascade_attr :: "string \<Rightarrow> string" where
  "cascade_attr nm = ''_cascade_'' @ nm"

definition all_cascade_attr :: "string \<Rightarrow> string" where
  "all_cascade_attr nm = ''_cascade_'' @ EVENT_TRIGGERED @ ''_'' @ nm"

text \<open>The body of \<^verbatim>\<open>if schema.cascade:\<close>, for the signal \<open>i\<close>.\<close>

definition make_cascade :: "cls \<Rightarrow> string \<Rightarrow> sid \<Rightarrow> state \<Rightarrow> state" where
  "make_cascade c nm i s =
     (let s1 = (if base_signals s nm = None
                then s\<lparr> base_signals := (base_signals s)(nm \<mapsto> []) \<rparr> else s);
          f = CascadePadre (next_fid s1) nm;
          s2 = setattr c (cascade_attr nm) f (s1\<lparr> next_fid := Suc (next_fid s1) \<rparr>)
      in signal_connect i (Padre f) s2)"

text \<open>The two unconditional lines that follow it.\<close>

definition make_all_cascade :: "cls \<Rightarrow> string \<Rightarrow> sid \<Rightarrow> state \<Rightarrow> state" where
  "make_all_cascade c nm i s =
     (let g = AllCascadePadre (next_fid s) EVENT_TRIGGERED;
          s1 = setattr c (all_cascade_attr nm) g (s\<lparr> next_fid := Suc (next_fid s) \<rparr>)
      in signal_connect i (Padre g) s1)"

text \<open>One turn of \<^verbatim>\<open>for schema in schemata\<close>.\<close>

definition declare_schema :: "cls \<Rightarrow> arg \<Rightarrow> namespace \<times> state \<Rightarrow> namespace \<times> state" where
  "declare_schema c a p =
     (let schema = as_schema a;
          (i, ns1, s1) = namespace_signal (name schema) (fst p) (snd p);
          s2 = (if cascade schema then make_cascade c (name schema) i s1 else s1)
      in (ns1, make_all_cascade c (name schema) i s2))"

fun declare_loop :: "cls \<Rightarrow> arg list \<Rightarrow> namespace \<times> state \<Rightarrow> namespace \<times> state" where
  "declare_loop c [] p = p"
| "declare_loop c (a # as) p = declare_loop c as (declare_schema c a p)"

text \<open>\<^verbatim>\<open>next((True for x in signal.receivers_for(ANY) if x.__name__ == "cascade"), False)\<close>\<close>

definition is_cascading :: "receiver list \<Rightarrow> bool" where
  "is_cascading rs = list_ex (\<lambda>x. receiver_name x = ''cascade'') rs"

definition inherited_schemata :: "state \<Rightarrow> cls \<Rightarrow> arg list" where
  "inherited_schemata s c =
     map (\<lambda>e. SchemaArg \<lparr> name = fst e, cascade = is_cascading (receivers s (snd e)) \<rparr>)
       (merge_dict_class_vars s c Signaler)"

text \<open>The tuple \<^verbatim>\<open>schemata\<close> when the loop starts.\<close>

definition schemata :: "arg list \<Rightarrow> cls \<Rightarrow> state \<Rightarrow> arg list" where
  "schemata args c s =
     (case getattr_signal_namespace s c of
        Some d \<Rightarrow> args @ inherited_schemata s c
      | None \<Rightarrow> args)"

definition signals_decorator :: "arg list \<Rightarrow> cls \<Rightarrow> state \<Rightarrow> state" where
  "signals_decorator args c s =
     (let s0 = s\<lparr> signal_classes := insert c (signal_classes s) \<rparr>;
          p = declare_loop c (schemata args c s0) ([], s0)
      in (snd p)\<lparr> signal_namespace := (signal_namespace (snd p))(c \<mapsto> fst p) \<rparr>)"

definition init_class_signals :: "cls \<Rightarrow> state \<Rightarrow> state" where
  "init_class_signals clz s =
     (if clz \<notin> signal_classes s then signals_decorator [] clz s else s)"

subsection \<open>\<^verbatim>\<open>Signaler\<close>\<close>

text \<open>\<^verbatim>\<open>Signaler.signals\<close>\<close>

definition signals :: "state \<Rightarrow> cls \<Rightarrow> error + namespace" where
  "signals s c =
     (case getattr_signal_namespace s c of
        None \<Rightarrow> Inl (ValueError ''Namespace not defined on'')
      | Some ns \<Rightarrow> Inr ns)"

text \<open>
  The last line of \<^verbatim>\<open>send_cls_signal\<close>:
  \<^verbatim>\<open>cls.signals().get(signal.name).send(*sender, signal=signal, **kwargs)\<close>.
\<close>

definition emit :: "cls \<Rightarrow> SignalSchema \<Rightarrow> pyval list \<Rightarrow> kwargs \<Rightarrow> state \<Rightarrow> error option \<times> state" where
  "emit c sg sender kw s =
     (case signals s c of
        Inl e \<Rightarrow> (Some e, s)
      | Inr ns \<Rightarrow>
          (case map_of ns (name sg) of
             None \<Rightarrow> (Some (AttributeError ''send''), s)
           | Some i \<Rightarrow>
               (if ''signal'' \<in> keys kw
                then (Some (TypeError ''got multiple values for keyword argument signal''), s)
                else signal_send i sender ((''signal'', Sch sg) # kw) s)))"

text \<open>The body of \<^verbatim>\<open>send_cls_signal\<close>, its parameters bound.\<close>

definition send_cls_signal ::
  "cls \<Rightarrow> SignalSchema \<Rightarrow> pyval list \<Rightarrow> bool \<Rightarrow> kwargs \<Rightarrow> state \<Rightarrow> error option \<times> state" where
  "send_cls_signal c sg sender condition kw s =
     (if condition then
        (let sender1 = (if length sender = 0 then [Cls c] else sender) in
         case signals s c of
           Inl e \<Rightarrow> (Some e, s)
         | Inr ns \<Rightarrow>
             (if name sg \<notin> keys ns then
                (let s1 = init_class_signals c s in
                 case signals s1 c of
                   Inl e \<Rightarrow> (Some e, s1)
                 | Inr ns1 \<Rightarrow>
                     (if name sg \<notin> keys ns1
                      then (Some (ValueError ''Signal is not existing on''), s1)
                      else emit c sg sender1 kw s1))
              else emit c sg sender1 kw s))
      else (None, s))"

text \<open>
  A call \<^verbatim>\<open>c.send_cls_signal(sg, *sender, condition=condition, **kw)\<close> of a caller.
  The method is found on subclasses of \<^verbatim>\<open>Signaler\<close>; the parameters \<^verbatim>\<open>cls\<close> and
  \<^verbatim>\<open>signal\<close> have their values from the positional arguments, so a keyword of
  either name is a second value for it.
\<close>

definition call_send_cls_signal ::
  "cls \<Rightarrow> SignalSchema \<Rightarrow> pyval list \<Rightarrow> bool \<Rightarrow> kwargs \<Rightarrow> state \<Rightarrow> error option \<times> state" where
  "call_send_cls_signal c sg sender condition kw s =
     (if \<not> issubclass s c Signaler then (Some (AttributeError ''send_cls_signal''), s)
      else if ''cls'' \<in> keys kw then (Some (TypeError ''got multiple values for argument cls''), s)
      else if ''signal'' \<in> keys kw
        then (Some (TypeError ''got multiple values for argument signal''), s)
      else send_cls_signal c sg sender condition kw s)"

text \<open>The body of \<^verbatim>\<open>send_signal\<close> on the instance \<open>Inst k c\<close>, and a caller's call of it.\<close>

definition send_signal ::
  "nat \<Rightarrow> cls \<Rightarrow> SignalSchema \<Rightarrow> pyval list \<Rightarrow> bool \<Rightarrow> kwargs \<Rightarrow> state \<Rightarrow> error option \<times> state" where
  "send_signal k c sg sender condition kw s =
     (let sender1 = (if length sender = 0 then [Inst k c] else sender)
      in call_send_cls_signal c sg sender1 condition kw s)"

definition call_send_signal ::
  "nat \<Rightarrow> cls \<Rightarrow> SignalSchema \<Rightarrow> pyval list \<Rightarrow> bool \<Rightarrow> kwargs \<Rightarrow> state \<Rightarrow> error option \<times> state" where
  "call_send_signal k c sg sender condition kw s =
     (if \<not> issubclass s c Signaler then (Some (AttributeError ''send_signal''), s)
      else if ''self'' \<in> keys kw then (Some (TypeError ''got multiple values for argument self''), s)
      else if ''signal'' \<in> keys kw
        then (Some (TypeError ''got multiple values for argument signal''), s)
      else send_signal k c sg sender condition kw s)"

subsection \<open>Connecting handlers\<close>

text \<open>\<^verbatim>\<open>connect_base_signal\<close>\<close>

definition connect_base_signal :: "string \<Rightarrow> callable \<Rightarrow> state \<Rightarrow> state" where
  "connect_base_signal nm f s =
     (let hs = (case base_signals s nm of None \<Rightarrow> [] | Some hs \<Rightarrow> hs)
      in s\<lparr> base_signals := (base_signals s)(nm \<mapsto> (if f \<in> set hs then hs else hs @ [f])) \<rparr>)"

text \<open>\<^verbatim>\<open>connect_class_signal\<close>; \<^verbatim>\<open>clz.signals\<close> is found on subclasses of \<^verbatim>\<open>Signaler\<close>.\<close>

definition connect_class_signal :: "cls \<Rightarrow> string \<Rightarrow> callable \<Rightarrow> state \<Rightarrow> error option \<times> state" where
  "connect_class_signal clz nm f s =
     (let s1 = init_class_signals clz s in
      if \<not> issubclass s1 clz Signaler then (Some (AttributeError ''signals''), s1)
      else
        (case signals s1 clz of
           Inl e \<Rightarrow> (Some e, s1)
         | Inr ns \<Rightarrow>
             (case map_of ns nm of
                None \<Rightarrow> (Some (ValueError ''Signal not defined on class''), s1)
              | Some i \<Rightarrow> (None, signal_connect i (User f) s1))))"

fun connect_classes :: "cls list \<Rightarrow> string \<Rightarrow> callable \<Rightarrow> state \<Rightarrow> error option \<times> state" where
  "connect_classes [] nm f s = (None, s)"
| "connect_classes (clz # rest) nm f s =
     (case connect_class_signal clz nm f s of
        (Some e, s') \<Rightarrow> (Some e, s')
      | (None, s') \<Rightarrow> connect_classes rest nm f s')"

text \<open>\<^verbatim>\<open>connect(*classes, name=nm)(f)\<close>\<close>

definition connect :: "cls list \<Rightarrow> string option \<Rightarrow> callable \<Rightarrow> state \<Rightarrow> error option \<times> state" where
  "connect classes nm f s =
     (let signal_name = (case nm of Some n \<Rightarrow> n | None \<Rightarrow> fn_name f) in
      if length classes = 0 then (None, connect_base_signal signal_name f s)
      else connect_classes classes signal_name f s)"

text \<open>
  The first loop of \<^verbatim>\<open>connect_subclasses_fn\<close>: connect each class, then add its
  \<^verbatim>\<open>__subclasses__()\<close> to the set.
\<close>

fun connect_and_collect ::
  "cls list \<Rightarrow> string \<Rightarrow> callable \<Rightarrow> cls list \<Rightarrow> state \<Rightarrow> error option \<times> cls list \<times> state" where
  "connect_and_collect [] nm f subs s = (None, subs, s)"
| "connect_and_collect (clz # rest) nm f subs s =
     (case connect_class_signal clz nm f s of
        (Some e, s') \<Rightarrow> (Some e, subs, s')
      | (None, s') \<Rightarrow>
          connect_and_collect rest nm f (subs @ filter (\<lambda>x. x \<notin> set subs) (remdups (subclasses s' clz))) s')"

text \<open>
  \<^verbatim>\<open>connect_subclasses_fn\<close> calls itself on the subclasses found; the first argument
  bounds the depth of these calls, and \<open>None\<close> is the bound reached.
\<close>

fun connect_subclasses_fn ::
  "nat \<Rightarrow> cls list \<Rightarrow> string \<Rightarrow> callable \<Rightarrow> state \<Rightarrow> (error option \<times> state) option" where
  "connect_subclasses_fn 0 classes nm f s = None"
| "connect_subclasses_fn (Suc fuel) classes nm f s =
     (if length classes = 0
      then Some (Some (ValueError ''You need to provide a class to find subclasses to connect to.''), s)
      else
        (case connect_and_collect classes nm f [] s of
           (Some e, subs, s1) \<Rightarrow> Some (Some e, s1)
         | (None, subs, s1) \<Rightarrow>
             (case connect_classes subs nm f s1 of
                (Some e, s2) \<Rightarrow> Some (Some e, s2)
              | (None, s2) \<Rightarrow>
                  (if subs \<noteq> [] then connect_subclasses_fn fuel subs nm f s2
                   else Some (None, s2)))))"

text \<open>\<^verbatim>\<open>connect_subclasses(*classes, name=nm)(f)\<close>\<close>

definition connect_subclasses ::
  "nat \<Rightarrow> cls list \<Rightarrow> string option \<Rightarrow> callable \<Rightarrow> state \<Rightarrow> (error option \<times> state) option" where
  "connect_subclasses fuel classes nm f s =
     connect_subclasses_fn fuel classes (case nm of Some n \<Rightarrow> n | None \<Rightarrow> fn_name f) f s"

section \<open>Invariants and notions used by the theorems\<close>

text \<open>
  Every closure stored as an attribute was created before the next identity to be
  handed out, and no closure is stored under two attributes.
\<close>

definition attrs_ok :: "state \<Rightarrow> bool" where
  "attrs_ok s =
     ((\<forall>key f. cascade_attrs s key = Some f \<longrightarrow> closure_id f < next_fid s) \<and>
      (\<forall>k1 k2 f. cascade_attrs s k1 = Some f \<longrightarrow> cascade_attrs s k2 = Some f \<longrightarrow> k1 = k2))"

text \<open>
  The channel \<open>i\<close> of the name \<open>n\<close> on class \<open>c\<close> holds exactly the closures \<open>oc\<close> (to the
  base signal of the same name) and \<open>oa\<close> (to the universal signal), in that order, and
  the class attributes hold the same closures.
\<close>

definition wired :: "cls \<Rightarrow> string \<Rightarrow> closure option \<Rightarrow> closure option \<Rightarrow> state \<Rightarrow> sid \<Rightarrow> bool" where
  "wired c n oc oa s i =
     (receivers s i = (case oc of None \<Rightarrow> [] | Some f \<Rightarrow> [Padre f])
                       @ (case oa of None \<Rightarrow> [] | Some g \<Rightarrow> [Padre g]) \<and>
      (\<forall>f. oc = Some f \<longrightarrow> cascade_attrs s (c, cascade_attr n) = Some f \<and>
             (\<exists>k. f = CascadePadre k n) \<and> base_signals s n \<noteq> None) \<and>
      (\<forall>g. oa = Some g \<longrightarrow> cascade_attrs s (c, all_cascade_attr n) = Some g \<and>
             (\<exists>k. g = AllCascadePadre k EVENT_TRIGGERED)))"

text \<open>
  A table under construction: its channels exist, and its names and channels are distinct.
\<close>

definition ns_ok :: "namespace \<Rightarrow> state \<Rightarrow> bool" where
  "ns_ok ns s = ((\<forall>e\<in>set ns. snd e < next_sid s) \<and> distinct (map fst ns) \<and> distinct (map snd ns))"

text \<open>
  The loop invariant of a declaration for one name \<open>n\<close>: once the name is in the table,
  its channel is wired to the universal signal, and to the base signal of the same name
  exactly when \<open>bc\<close> holds.
\<close>

definition chan :: "cls \<Rightarrow> string \<Rightarrow> bool \<Rightarrow> namespace \<Rightarrow> state \<Rightarrow> bool" where
  "chan c n bc ns s =
     (case map_of ns n of
        None \<Rightarrow> \<not> bc
      | Some i \<Rightarrow> \<exists>oc g. wired c n oc (Some g) s i \<and> ((oc \<noteq> None) = bc))"

text \<open>
  The attribute names \<^verbatim>\<open>_cascade_<m>\<close> and \<^verbatim>\<open>_cascade_generic_event_<n>\<close> coincide when
  \<open>m\<close> is \<^verbatim>\<open>generic_event_<n>\<close>; two names clash when one is the other with that prefix.
\<close>

definition no_clash :: "string \<Rightarrow> string \<Rightarrow> bool" where
  "no_clash n m = (m \<noteq> EVENT_TRIGGERED @ ''_'' @ n \<and> n \<noteq> EVENT_TRIGGERED @ ''_'' @ m)"

text \<open>
  The callers' handlers registered on a channel.
\<close>

definition user_receivers :: "state \<Rightarrow> sid \<Rightarrow> callable set" where
  "user_receivers s i = {f. User f \<in> set (receivers s i)}"

text \<open>
  The channels created since the state with \<open>b0\<close> channels have no handler of a caller,
  and the older ones have the handlers they had.
\<close>

definition users_kept :: "nat \<Rightarrow> (sid \<Rightarrow> callable set) \<Rightarrow> namespace \<Rightarrow> state \<Rightarrow> bool" where
  "users_kept b0 U0 ns s =
     (b0 \<le> next_sid s \<and>
      (\<forall>i. i < b0 \<longrightarrow> user_receivers s i = U0 i) \<and>
      (\<forall>i. b0 \<le> i \<longrightarrow> i < next_sid s \<longrightarrow> user_receivers s i = {}) \<and>
      (\<forall>e\<in>set ns. b0 \<le> snd e \<and> snd e < next_sid s))"

text \<open>
  Some schema of the list has the name \<open>n\<close> and cascades.
\<close>

definition cascading :: "arg list \<Rightarrow> string \<Rightarrow> bool" where
  "cascading as n = (\<exists>a\<in>set as. name (as_schema a) = n \<and> cascade (as_schema a))"

text \<open>
  The handlers on the base signal of a name (none when there is no such signal).
\<close>

definition handlers_of :: "state \<Rightarrow> string \<Rightarrow> callable list" where
  "handlers_of s nm = (case base_signals s nm of None \<Rightarrow> [] | Some hs \<Rightarrow> hs)"

text \<open>
  The sender an emission uses: the first one given, or the default.
\<close>

definition default_sender :: "pyval \<Rightarrow> pyval list \<Rightarrow> pyval" where
  "default_sender d sender = (case sender of [] \<Rightarrow> d | x # xs \<Rightarrow> x)"

text \<open>
  What holds of every state the module can reach, as far as the theorems need it.
\<close>

definition wf :: "state \<Rightarrow> bool" where
  "wf s =
     (attrs_ok s \<and>
      base_signals s EVENT_TRIGGERED \<noteq> None \<and>
      (\<forall>nm hs. base_signals s nm = Some hs \<longrightarrow> distinct hs) \<and>
      (\<forall>c ns. signal_namespace s c = Some ns \<longrightarrow>
         distinct (map fst ns) \<and> (\<forall>e\<in>set ns. snd e < next_sid s)) \<and>
      (\<forall>c\<in>signal_classes s. signal_namespace s c \<noteq> None))"


definition new_log :: "state \<Rightarrow> state \<Rightarrow> invocation list" where
  "new_log s s' = drop (length (log s)) (log s')"

text \<open>
  The base signal a closure sends to, and the base signals that the receivers of a
  channel send to, in the order of the receivers.
\<close>

definition target :: "closure \<Rightarrow> string" where
  "target c = (case c of CascadePadre k nm \<Rightarrow> nm | AllCascadePadre k nm \<Rightarrow> nm)"

definition forwards :: "receiver list \<Rightarrow> string list" where
  "forwards rs = concat (map (\<lambda>r. case r of User f \<Rightarrow> [] | Padre c \<Rightarrow> [target c]) rs)"


text \<open>
  The handler \<open>h\<close> is a receiver of the channel that a table binds to \<open>n\<close>; and of the
  channel that the table seen by \<open>T\<close> binds to \<open>n\<close>.
\<close>

definition handler_on :: "state \<Rightarrow> namespace \<Rightarrow> string \<Rightarrow> callable \<Rightarrow> bool" where
  "handler_on s ns n h =
     (case map_of ns n of None \<Rightarrow> False | Some i \<Rightarrow> User h \<in> set (receivers s i))"

definition connected_to :: "state \<Rightarrow> cls \<Rightarrow> string \<Rightarrow> callable \<Rightarrow> bool" where
  "connected_to s T n h =
     (case signals s T of Inl e \<Rightarrow> False | Inr ns \<Rightarrow> handler_on s ns n h)"

text \<open>
  The calls of callers' handlers that one emission on a channel makes: a handler on the
  channel is called, a closure calls the handlers of its base signal.
\<close>

definition deliveries :: "state \<Rightarrow> receiver list \<Rightarrow> pyval \<Rightarrow> kwargs \<Rightarrow> invocation list" where
  "deliveries s rs x kw =
     concat (map (\<lambda>r. case r of User f \<Rightarrow> [(f, x, kw)]
                              | Padre c \<Rightarrow> map (\<lambda>h. (h, x, kw)) (handlers_of s (target c))) rs)"

text \<open>
  The universal signal exists, and so does every base signal that a closure on a channel
  sends to. This holds of every state the module can reach.
\<close>

definition targets_ok :: "state \<Rightarrow> bool" where
  "targets_ok s =
     (base_signals s EVENT_TRIGGERED \<noteq> None \<and>
      (\<forall>i. \<forall>m\<in>set (forwards (receivers s i)). base_signals s m \<noteq> None))"

text \<open>
  The class is in the registry and \<open>h\<close> is on the channel that its own table binds to \<open>n\<close>.
\<close>

definition registered :: "state \<Rightarrow> cls \<Rightarrow> string \<Rightarrow> callable \<Rightarrow> bool" where
  "registered s T n h =
     (T \<in> signal_classes s \<and>
      (case signal_namespace s T of None \<Rightarrow> False | Some ns \<Rightarrow> handler_on s ns n h))"

text \<open>
  The table that \<open>T\<close> sees binds the name \<open>n\<close>.
\<close>

definition offers :: "state \<Rightarrow> cls \<Rightarrow> string \<Rightarrow> bool" where
  "offers s T n = (case signals s T of Inl e \<Rightarrow> False | Inr ns \<Rightarrow> n \<in> keys ns)"

text \<open>
  The relation between a class and its direct subclasses.
\<close>

definition subclass_rel :: "state \<Rightarrow> (cls \<times> cls) set" where
  "subclass_rel s = {(c, d). d \<in> set (subclasses s c)}"

text \<open>
  What the transitive connection keeps: the state is well formed and every class of \<open>X\<close>
  can emit and sees the name.
\<close>

definition conn_inv :: "cls set \<Rightarrow> string \<Rightarrow> state \<Rightarrow> bool" where
  "conn_inv X n s = (wf s \<and> (\<forall>c\<in>X. issubclass s c Signaler \<and> offers s c n))"

text \<open>
  What the transitive connection changes at most: tables of classes of \<open>X\<close>, the registry
  by classes of \<open>X\<close>, and receivers, without removing a registered handler.
\<close>

definition conn_frame :: "cls set \<Rightarrow> string \<Rightarrow> state \<Rightarrow> state \<Rightarrow> bool" where
  "conn_frame X n s s' =
     (mro_tail s' = mro_tail s \<and> subclasses s' = subclasses s \<and> log s' = log s \<and>
      (\<forall>c. c \<notin> X \<longrightarrow> signal_namespace s' c = signal_namespace s c) \<and>
      signal_classes s' \<subseteq> X \<union> signal_classes s \<and>
      (targets_ok s \<longrightarrow> targets_ok s') \<and>
      (\<forall>T h. registered s T n h \<longrightarrow> registered s' T n h))"

section \<open>Scenarios\<close>

text \<open>
  The classes and the handler used to run the theorems on concrete inputs:
  \<^verbatim>\<open>class A(Signaler)\<close>, \<^verbatim>\<open>class B(A)\<close>, \<^verbatim>\<open>class C(A)\<close>, \<^verbatim>\<open>class D(B)\<close> and
  \<^verbatim>\<open>def h(sender, **kwargs)\<close>.
\<close>

definition ex_A :: cls where "ex_A = 1"
definition ex_B :: cls where "ex_B = 2"
definition ex_C :: cls where "ex_C = 3"
definition ex_D :: cls where "ex_D = 4"

definition ex_h :: callable where "ex_h = Fn ''h'' 7"

definition ex_created :: SignalSchema where
  "ex_created = \<lparr> name = ''created'', cascade = True \<rparr>"

text \<open>\<^verbatim>\<open>class A(Signaler)\<close>, undecorated.\<close>

definition ex_s0 :: state where
  "ex_s0 = def_subclass ex_A Signaler init_state"

text \<open>\<^verbatim>\<open>@signals(SignalSchema("created", True)) class A(Signaler)\<close>\<close>

definition ex_sA :: state where
  "ex_sA = signals_decorator [SchemaArg ex_created] ex_A ex_s0"

text \<open>Then \<^verbatim>\<open>class B(A)\<close>, undecorated.\<close>

definition ex_sAb :: state where
  "ex_sAb = def_subclass ex_B ex_A ex_sA"

text \<open>Then \<^verbatim>\<open>signals("created")(B)\<close>.\<close>

definition ex_sAB :: state where
  "ex_sAB = signals_decorator [StrArg ''created''] ex_B ex_sAb"


text \<open>\<open>A\<close> declared with the cascading \<^verbatim>\<open>created\<close>, and \<open>h\<close> connected to the base signal \<^verbatim>\<open>created\<close>.\<close>

definition ex_sAh :: state where
  "ex_sAh = connect_base_signal ''created'' ex_h ex_sA"

text \<open>Then \<^verbatim>\<open>class B(A)\<close>, undecorated.\<close>

definition ex_sAhb :: state where
  "ex_sAhb = def_subclass ex_B ex_A ex_sAh"

text \<open>Then the lazy declaration of \<open>B\<close>.\<close>

definition ex_sAhB :: state where
  "ex_sAhB = init_class_signals ex_B ex_sAhb"

text \<open>\<open>A\<close> declared, and \<open>h\<close> connected to its channel \<^verbatim>\<open>created\<close>.\<close>

definition ex_sA1 :: state where
  "ex_sA1 = snd (connect_class_signal ex_A ''created'' ex_h ex_sA)"

text \<open>Then \<open>A\<close> declared a second time, with the same schema.\<close>

definition ex_sA2 :: state where
  "ex_sA2 = signals_decorator [SchemaArg ex_created] ex_A ex_sA1"

text \<open>\<^verbatim>\<open>class D(B)\<close>, undecorated, below the declared \<open>B\<close> and \<open>A\<close>.\<close>

definition ex_sABd :: state where
  "ex_sABd = def_subclass ex_D ex_B ex_sAB"

text \<open>A second handler, \<^verbatim>\<open>def k(sender, **kwargs)\<close>.\<close>

definition ex_k :: callable where "ex_k = Fn ''k'' 8"



text \<open>\<^verbatim>\<open>class A(Signaler)\<close> declared with \<^verbatim>\<open>created\<close>, then \<^verbatim>\<open>class B(A)\<close> and \<^verbatim>\<open>class C(A)\<close>.\<close>

definition ex_sAbc :: state where
  "ex_sAbc = def_subclass ex_C ex_A ex_sAb"

text \<open>Then \<^verbatim>\<open>connect_subclasses(A, name="created")(h)\<close>.\<close>

definition ex_sT :: state where
  "ex_sT = (case connect_subclasses 2 [ex_A] (Some ''created'') ex_h ex_sAbc of
              Some (None, s') \<Rightarrow> s' | _ \<Rightarrow> ex_sAbc)"

text \<open>Then \<^verbatim>\<open>class D(B)\<close>, undecorated.\<close>

definition ex_sTd :: state where
  "ex_sTd = def_subclass ex_D ex_B ex_sT"

text \<open>A fifth class, for \<^verbatim>\<open>class E(B)\<close>.\<close>

definition ex_E :: cls where "ex_E = 5"

text \<open>\<open>A\<close> declared with \<^verbatim>\<open>created\<close>, then \<open>B(A)\<close>, \<open>C(A)\<close> and \<open>E(B)\<close>, none of them declared.\<close>

definition ex_sAbce :: state where
  "ex_sAbce = def_subclass ex_E ex_B ex_sAbc"

section \<open>Dictionaries\<close>

lemma map_of_dict_set: "map_of (dict_set k v d) = (map_of d)(k \<mapsto> v)"
  by (induction d) (auto simp: fun_eq_iff)

lemma keys_dict_set: "keys (dict_set k v d) = insert k (keys d)"
  by (induction d) (auto simp: keys_def)

lemma map_of_dict_merge_notin:
  "n \<notin> keys d \<Longrightarrow> map_of (dict_merge var d) n = map_of var n"
  unfolding dict_merge_def
  by (induction d arbitrary: var) (auto simp: keys_def map_of_dict_set)

lemma map_of_dict_merge_in:
  "distinct (map fst d) \<Longrightarrow> map_of d n = Some v \<Longrightarrow> map_of (dict_merge var d) n = Some v"
proof (induction d arbitrary: var)
  case Nil
  then show ?case by simp
next
  case (Cons e d)
  show ?case
  proof (cases "fst e = n")
    case True
    with Cons.prems have v: "snd e = v" and notin: "n \<notin> keys d"
      by (auto simp: keys_def)
    have "map_of (dict_merge (dict_set (fst e) (snd e) var) d) n
            = map_of (dict_set (fst e) (snd e) var) n"
      using notin by (rule map_of_dict_merge_notin)
    then show ?thesis using True v by (simp add: dict_merge_def map_of_dict_set)
  next
    case False
    with Cons.prems have "map_of d n = Some v" "distinct (map fst d)" by auto
    then have "map_of (dict_merge (dict_set (fst e) (snd e) var) d) n = Some v"
      using Cons.IH by blast
    then show ?thesis by (simp add: dict_merge_def)
  qed
qed

lemma keys_dict_merge: "keys (dict_merge var d) = keys var \<union> keys d"
  unfolding dict_merge_def
  by (induction d arbitrary: var) (auto simp: keys_def keys_dict_set [unfolded keys_def])

section \<open>Attribute lookup\<close>

lemma lookup_attr_None: "(lookup_attr d ps = None) = (\<forall>p\<in>set ps. d p = None)"
  by (induction ps) (auto split: option.splits)

lemma getattr_own:
  "signal_namespace s c = Some ns \<Longrightarrow> getattr_signal_namespace s c = Some ns"
  by (simp add: getattr_signal_namespace_def mro_def)

lemma getattr_inherit:
  "signal_namespace s c = None \<Longrightarrow>
   getattr_signal_namespace s c = lookup_attr (signal_namespace s) (mro_tail s c)"
  by (simp add: getattr_signal_namespace_def mro_def)

section \<open>Declarations: what the loop does to a channel\<close>

lemma setattr_frame:
  "mro_tail (setattr c a f s) = mro_tail s"
  "subclasses (setattr c a f s) = subclasses s"
  "signal_classes (setattr c a f s) = signal_classes s"
  "base_signals (setattr c a f s) = base_signals s"
  "signal_namespace (setattr c a f s) = signal_namespace s"
  "next_sid (setattr c a f s) = next_sid s"
  "next_fid (setattr c a f s) = next_fid s"
  "log (setattr c a f s) = log s"
  "cascade_attrs (setattr c a f s) = (cascade_attrs s)((c, a) \<mapsto> f)"
  by (simp_all add: setattr_def split: option.splits)

lemma setattr_receivers:
  "receivers (setattr c a f s) i =
     (case cascade_attrs s (c, a) of None \<Rightarrow> receivers s i
      | Some old \<Rightarrow> removeAll (Padre old) (receivers s i))"
  by (simp add: setattr_def split: option.splits)

lemma signal_connect_frame:
  "mro_tail (signal_connect i r s) = mro_tail s"
  "subclasses (signal_connect i r s) = subclasses s"
  "signal_classes (signal_connect i r s) = signal_classes s"
  "base_signals (signal_connect i r s) = base_signals s"
  "signal_namespace (signal_connect i r s) = signal_namespace s"
  "cascade_attrs (signal_connect i r s) = cascade_attrs s"
  "next_sid (signal_connect i r s) = next_sid s"
  "next_fid (signal_connect i r s) = next_fid s"
  "log (signal_connect i r s) = log s"
  by (simp_all add: signal_connect_def)

lemma signal_connect_receivers:
  "receivers (signal_connect i r s) j =
     (if j = i \<and> r \<notin> set (receivers s i) then receivers s i @ [r] else receivers s j)"
  by (simp add: signal_connect_def)

lemma make_cascade_frame:
  "mro_tail (make_cascade c nm i s) = mro_tail s"
  "subclasses (make_cascade c nm i s) = subclasses s"
  "signal_classes (make_cascade c nm i s) = signal_classes s"
  "signal_namespace (make_cascade c nm i s) = signal_namespace s"
  "next_sid (make_cascade c nm i s) = next_sid s"
  "next_fid (make_cascade c nm i s) = Suc (next_fid s)"
  "log (make_cascade c nm i s) = log s"
  "cascade_attrs (make_cascade c nm i s)
     = (cascade_attrs s)((c, cascade_attr nm) \<mapsto> CascadePadre (next_fid s) nm)"
  "base_signals (make_cascade c nm i s)
     = (if base_signals s nm = None then (base_signals s)(nm \<mapsto> []) else base_signals s)"
  by (simp_all add: make_cascade_def Let_def setattr_frame signal_connect_frame)

lemma make_all_cascade_frame:
  "mro_tail (make_all_cascade c nm i s) = mro_tail s"
  "subclasses (make_all_cascade c nm i s) = subclasses s"
  "signal_classes (make_all_cascade c nm i s) = signal_classes s"
  "signal_namespace (make_all_cascade c nm i s) = signal_namespace s"
  "base_signals (make_all_cascade c nm i s) = base_signals s"
  "next_sid (make_all_cascade c nm i s) = next_sid s"
  "next_fid (make_all_cascade c nm i s) = Suc (next_fid s)"
  "log (make_all_cascade c nm i s) = log s"
  "cascade_attrs (make_all_cascade c nm i s)
     = (cascade_attrs s)((c, all_cascade_attr nm) \<mapsto> AllCascadePadre (next_fid s) EVENT_TRIGGERED)"
  by (simp_all add: make_all_cascade_def Let_def setattr_frame signal_connect_frame)

lemma attr_names [simp]:
  "(cascade_attr m = cascade_attr n) = (m = n)"
  "(all_cascade_attr m = all_cascade_attr n) = (m = n)"
  "(cascade_attr m = all_cascade_attr n) = (m = EVENT_TRIGGERED @ ''_'' @ n)"
  "(all_cascade_attr n = cascade_attr m) = (m = EVENT_TRIGGERED @ ''_'' @ n)"
  by (auto simp: cascade_attr_def all_cascade_attr_def)

lemma attr_names_self [simp]:
  "cascade_attr n \<noteq> all_cascade_attr n" "all_cascade_attr n \<noteq> cascade_attr n"
  by (auto simp: cascade_attr_def all_cascade_attr_def)

lemma attrs_ok_make_cascade: "attrs_ok s \<Longrightarrow> attrs_ok (make_cascade c m j s)"
  unfolding attrs_ok_def
  by (auto simp: make_cascade_frame less_Suc_eq split: if_splits) fastforce+

lemma attrs_ok_make_all_cascade: "attrs_ok s \<Longrightarrow> attrs_ok (make_all_cascade c m j s)"
  unfolding attrs_ok_def
  by (auto simp: make_all_cascade_frame less_Suc_eq split: if_splits) fastforce+

lemma make_all_cascade_receivers:
  "receivers (make_all_cascade c nm i s) j =
     (let R = (\<lambda>j. case cascade_attrs s (c, all_cascade_attr nm) of None \<Rightarrow> receivers s j
                    | Some old \<Rightarrow> removeAll (Padre old) (receivers s j));
          g = Padre (AllCascadePadre (next_fid s) EVENT_TRIGGERED)
      in if j = i \<and> g \<notin> set (R i) then R i @ [g] else R j)"
  by (simp add: make_all_cascade_def Let_def signal_connect_receivers setattr_receivers
      setattr_def split: option.splits)

lemma make_cascade_receivers:
  "receivers (make_cascade c nm i s) j =
     (let R = (\<lambda>j. case cascade_attrs s (c, cascade_attr nm) of None \<Rightarrow> receivers s j
                    | Some old \<Rightarrow> removeAll (Padre old) (receivers s j));
          g = Padre (CascadePadre (next_fid s) nm)
      in if j = i \<and> g \<notin> set (R i) then R i @ [g] else R j)"
  by (simp add: make_cascade_def Let_def signal_connect_receivers setattr_receivers
      setattr_def split: option.splits)

lemma attrs_ok_inj:
  "attrs_ok s \<Longrightarrow> cascade_attrs s k1 = Some f \<Longrightarrow> cascade_attrs s k2 = Some f \<Longrightarrow> k1 = k2"
  unfolding attrs_ok_def by blast

lemma attrs_ok_bound:
  "attrs_ok s \<Longrightarrow> cascade_attrs s k = Some f \<Longrightarrow> closure_id f < next_fid s"
  unfolding attrs_ok_def by blast

text \<open>A closure stored under another attribute is not among the receivers of a wired channel.\<close>

lemma wired_other_attr:
  assumes "attrs_ok s" "wired c n oc oa s i" "cascade_attrs s (c, a) = Some old"
    "a \<noteq> cascade_attr n" "a \<noteq> all_cascade_attr n"
  shows "Padre old \<notin> set (receivers s i)"
proof
  assume "Padre old \<in> set (receivers s i)"
  then have "oc = Some old \<or> oa = Some old"
    using assms(2) unfolding wired_def by (auto split: option.splits)
  then have "cascade_attrs s (c, cascade_attr n) = Some old
             \<or> cascade_attrs s (c, all_cascade_attr n) = Some old"
    using assms(2) unfolding wired_def by blast
  then have "(c, a) = (c, cascade_attr n) \<or> (c, a) = (c, all_cascade_attr n)"
    using attrs_ok_inj [OF assms(1) assms(3)] by blast
  then show False using assms(4,5) by simp
qed

lemma wired_make_all_other:
  assumes "attrs_ok s" "m \<noteq> n" "n \<noteq> EVENT_TRIGGERED @ ''_'' @ m" "j \<noteq> i" "wired c n oc oa s i"
  shows "wired c n oc oa (make_all_cascade c m j s) i"
proof -
  have keep: "receivers (make_all_cascade c m j s) i = receivers s i"
  proof (cases "cascade_attrs s (c, all_cascade_attr m)")
    case None
    then show ?thesis using assms(4) by (simp add: make_all_cascade_receivers)
  next
    case (Some old)
    have "Padre old \<notin> set (receivers s i)"
      using wired_other_attr [OF assms(1) assms(5) Some] assms(2,3) by simp
    then show ?thesis using Some assms(4) by (simp add: make_all_cascade_receivers)
  qed
  show ?thesis
    using assms(5) assms(2,3) unfolding wired_def
    by (simp add: keep make_all_cascade_frame)
qed

lemma wired_make_cascade_other:
  assumes "attrs_ok s" "m \<noteq> n" "m \<noteq> EVENT_TRIGGERED @ ''_'' @ n" "j \<noteq> i" "wired c n oc oa s i"
  shows "wired c n oc oa (make_cascade c m j s) i"
proof -
  have keep: "receivers (make_cascade c m j s) i = receivers s i"
  proof (cases "cascade_attrs s (c, cascade_attr m)")
    case None
    then show ?thesis using assms(4) by (simp add: make_cascade_receivers)
  next
    case (Some old)
    have "Padre old \<notin> set (receivers s i)"
      using wired_other_attr [OF assms(1) assms(5) Some] assms(2,3) by simp
    then show ?thesis using Some assms(4) by (simp add: make_cascade_receivers)
  qed
  show ?thesis
    using assms(5) assms(2,3) unfolding wired_def
    by (auto simp: keep make_cascade_frame)
qed

lemma wired_fresh_id:
  assumes "attrs_ok s" "wired c n oc oa s i"
  shows "Padre (CascadePadre (next_fid s) nm) \<notin> set (receivers s i)"
    and "Padre (AllCascadePadre (next_fid s) nm) \<notin> set (receivers s i)"
proof -
  have b: "\<And>f. Padre f \<in> set (receivers s i) \<Longrightarrow> closure_id f < next_fid s"
  proof -
    fix f assume "Padre f \<in> set (receivers s i)"
    then have "oc = Some f \<or> oa = Some f"
      using assms(2) unfolding wired_def by (auto split: option.splits)
    then have "\<exists>k. cascade_attrs s k = Some f"
      using assms(2) unfolding wired_def by blast
    then show "closure_id f < next_fid s" using attrs_ok_bound [OF assms(1)] by blast
  qed
  show "Padre (CascadePadre (next_fid s) nm) \<notin> set (receivers s i)"
    using b [of "CascadePadre (next_fid s) nm"] by auto
  show "Padre (AllCascadePadre (next_fid s) nm) \<notin> set (receivers s i)"
    using b [of "AllCascadePadre (next_fid s) nm"] by auto
qed

lemma wired_distinct:
  assumes "attrs_ok s" "wired c n (Some f) (Some g) s i"
  shows "f \<noteq> g"
proof
  assume "f = g"
  then have "(c, cascade_attr n) = (c, all_cascade_attr n)"
    using assms(2) attrs_ok_inj [OF assms(1)] unfolding wired_def by blast
  then show False by simp
qed

lemma wired_make_all_same:
  assumes "attrs_ok s" "wired c n oc oa s i"
  shows "wired c n oc (Some (AllCascadePadre (next_fid s) EVENT_TRIGGERED))
           (make_all_cascade c n i s) i"
proof -
  let ?g = "AllCascadePadre (next_fid s) EVENT_TRIGGERED"
  let ?R = "case cascade_attrs s (c, all_cascade_attr n) of None \<Rightarrow> receivers s i
            | Some old \<Rightarrow> removeAll (Padre old) (receivers s i)"
  have fresh: "Padre ?g \<notin> set (receivers s i)"
    using wired_fresh_id(2) [OF assms] .
  have R: "?R = (case oc of None \<Rightarrow> [] | Some f \<Rightarrow> [Padre f])"
  proof (cases oa)
    case (Some g)
    then have a: "cascade_attrs s (c, all_cascade_attr n) = Some g"
      using assms(2) unfolding wired_def by blast
    have "\<And>f. oc = Some f \<Longrightarrow> f \<noteq> g"
      using wired_distinct [OF assms(1)] assms(2) Some by blast
    then show ?thesis using assms(2) Some a unfolding wired_def
      by (auto split: option.splits)
  next
    case None
    show ?thesis
    proof (cases "cascade_attrs s (c, all_cascade_attr n)")
      case None
      then show ?thesis using assms(2) \<open>oa = None\<close> unfolding wired_def by simp
    next
      case (Some old)
      have "\<And>f. oc = Some f \<Longrightarrow> f \<noteq> old"
      proof
        fix f assume "oc = Some f" "f = old"
        then have "cascade_attrs s (c, cascade_attr n) = Some old"
          using assms(2) unfolding wired_def by blast
        then have "(c, cascade_attr n) = (c, all_cascade_attr n)"
          using attrs_ok_inj [OF assms(1) _ Some] by blast
        then show False by simp
      qed
      then show ?thesis using assms(2) \<open>oa = None\<close> Some unfolding wired_def
        by (auto split: option.splits)
    qed
  qed
  have notin: "Padre ?g \<notin> set ?R"
    using fresh by (auto split: option.splits)
  have recv: "receivers (make_all_cascade c n i s) i = ?R @ [Padre ?g]"
    using notin by (simp add: make_all_cascade_receivers Let_def)
  show ?thesis
    using assms(2) unfolding wired_def
    by (auto simp: recv R make_all_cascade_frame)
qed

lemma wired_make_cascade_same:
  assumes "attrs_ok s" "wired c n oc oa s i"
  shows "receivers (make_cascade c n i s) i
           = (case oa of None \<Rightarrow> [] | Some g \<Rightarrow> [Padre g]) @ [Padre (CascadePadre (next_fid s) n)]"
proof -
  let ?f = "CascadePadre (next_fid s) n"
  let ?R = "case cascade_attrs s (c, cascade_attr n) of None \<Rightarrow> receivers s i
            | Some old \<Rightarrow> removeAll (Padre old) (receivers s i)"
  have fresh: "Padre ?f \<notin> set (receivers s i)"
    using wired_fresh_id(1) [OF assms] .
  have R: "?R = (case oa of None \<Rightarrow> [] | Some g \<Rightarrow> [Padre g])"
  proof (cases oc)
    case (Some f)
    then have a: "cascade_attrs s (c, cascade_attr n) = Some f"
      using assms(2) unfolding wired_def by blast
    have "\<And>g. oa = Some g \<Longrightarrow> f \<noteq> g"
      using wired_distinct [OF assms(1)] assms(2) Some by blast
    then show ?thesis using assms(2) Some a unfolding wired_def
      by (auto split: option.splits)
  next
    case None
    show ?thesis
    proof (cases "cascade_attrs s (c, cascade_attr n)")
      case None
      then show ?thesis using assms(2) \<open>oc = None\<close> unfolding wired_def by simp
    next
      case (Some old)
      have "\<And>g. oa = Some g \<Longrightarrow> g \<noteq> old"
      proof
        fix g assume "oa = Some g" "g = old"
        then have "cascade_attrs s (c, all_cascade_attr n) = Some old"
          using assms(2) unfolding wired_def by blast
        then have "(c, all_cascade_attr n) = (c, cascade_attr n)"
          using attrs_ok_inj [OF assms(1) _ Some] by blast
        then show False by simp
      qed
      then show ?thesis using assms(2) \<open>oc = None\<close> Some unfolding wired_def
        by (auto split: option.splits)
    qed
  qed
  have notin: "Padre ?f \<notin> set ?R"
    using fresh by (auto split: option.splits)
  show ?thesis
    using notin R by (simp add: make_cascade_receivers Let_def)
qed

lemma wired_cascade_all_same:
  assumes "attrs_ok s" "wired c n oc oa s i"
  shows "wired c n (Some (CascadePadre (next_fid s) n))
           (Some (AllCascadePadre (Suc (next_fid s)) EVENT_TRIGGERED))
           (make_all_cascade c n i (make_cascade c n i s)) i"
proof -
  let ?s1 = "make_cascade c n i s"
  let ?f = "CascadePadre (next_fid s) n"
  let ?g = "AllCascadePadre (Suc (next_fid s)) EVENT_TRIGGERED"
  have r1: "receivers ?s1 i = (case oa of None \<Rightarrow> [] | Some g \<Rightarrow> [Padre g]) @ [Padre ?f]"
    using wired_make_cascade_same [OF assms] .
  have a1: "cascade_attrs ?s1 (c, all_cascade_attr n) = cascade_attrs s (c, all_cascade_attr n)"
    by (simp add: make_cascade_frame)
  let ?R = "case cascade_attrs ?s1 (c, all_cascade_attr n) of None \<Rightarrow> receivers ?s1 i
            | Some old \<Rightarrow> removeAll (Padre old) (receivers ?s1 i)"
  have R: "?R = [Padre ?f]"
  proof (cases oa)
    case (Some g)
    then have a: "cascade_attrs s (c, all_cascade_attr n) = Some g"
      using assms(2) unfolding wired_def by blast
    have "closure_id g < next_fid s" using attrs_ok_bound [OF assms(1) a] .
    then have "g \<noteq> ?f" by auto
    then show ?thesis using Some a a1 r1 by simp
  next
    case None
    show ?thesis
    proof (cases "cascade_attrs s (c, all_cascade_attr n)")
      case None
      then show ?thesis using \<open>oa = None\<close> a1 r1 by simp
    next
      case (Some old)
      have "closure_id old < next_fid s" using attrs_ok_bound [OF assms(1) Some] .
      then have "old \<noteq> ?f" by auto
      then show ?thesis using \<open>oa = None\<close> Some a1 r1 by simp
    qed
  qed
  have recv: "receivers (make_all_cascade c n i ?s1) i = [Padre ?f, Padre ?g]"
    using R by (simp add: make_all_cascade_receivers Let_def make_cascade_frame)
  show ?thesis
    unfolding wired_def
    by (auto simp: recv make_all_cascade_frame make_cascade_frame)
qed

lemma wired_cong:
  "receivers s' i = receivers s i \<Longrightarrow> cascade_attrs s' = cascade_attrs s \<Longrightarrow>
   base_signals s' = base_signals s \<Longrightarrow> wired c n oc oa s' i = wired c n oc oa s i"
  by (simp add: wired_def)

lemma attrs_ok_cong:
  "cascade_attrs s' = cascade_attrs s \<Longrightarrow> next_fid s' = next_fid s \<Longrightarrow> attrs_ok s' = attrs_ok s"
  by (simp add: attrs_ok_def)

lemma ns_ok_next: "next_sid s' = next_sid s \<Longrightarrow> ns_ok ns s' = ns_ok ns s"
  by (simp add: ns_ok_def)

lemma ns_ok_sid_inj:
  assumes "ns_ok ns s" "map_of ns m = Some j" "map_of ns n = Some i" "m \<noteq> n"
  shows "i \<noteq> j"
proof
  assume "i = j"
  have "(m, j) \<in> set ns" "(n, j) \<in> set ns"
    using assms(2,3) \<open>i = j\<close> by (auto dest: map_of_SomeD)
  moreover have "inj_on snd (set ns)"
    using assms(1) by (simp add: ns_ok_def distinct_map)
  ultimately have "(m, j) = (n, j)"
    using inj_onD [of snd "set ns" "(m, j)" "(n, j)"] by simp
  then show False using assms(4) by simp
qed

lemma ns_ok_bound: "ns_ok ns s \<Longrightarrow> map_of ns n = Some i \<Longrightarrow> i < next_sid s"
  by (auto simp: ns_ok_def dest: map_of_SomeD)

text \<open>What \<open>namespace_signal\<close> returns, by cases.\<close>

lemma namespace_signal_old:
  "map_of ns m = Some j \<Longrightarrow> namespace_signal m ns s = (j, ns, s)"
  by (simp add: namespace_signal_def)

lemma namespace_signal_new:
  "map_of ns m = None \<Longrightarrow>
   namespace_signal m ns s =
     (next_sid s, ns @ [(m, next_sid s)],
      s\<lparr> receivers := (receivers s)(next_sid s := []), next_sid := Suc (next_sid s) \<rparr>)"
  by (simp add: namespace_signal_def)

lemma ns_ok_new:
  assumes "ns_ok ns s" "map_of ns m = None"
  shows "ns_ok (ns @ [(m, next_sid s)])
           (s\<lparr> receivers := (receivers s)(next_sid s := []), next_sid := Suc (next_sid s) \<rparr>)"
proof -
  have "m \<notin> fst ` set ns" using assms(2) by (simp add: map_of_eq_None_iff)
  moreover have "next_sid s \<notin> snd ` set ns" using assms(1) by (auto simp: ns_ok_def)
  ultimately show ?thesis using assms(1) by (auto simp: ns_ok_def less_Suc_eq)
qed

lemma namespace_signal_props:
  assumes "attrs_ok s" "ns_ok ns s" "chan c n bc ns s"
    and "namespace_signal m ns s = (j, ns1, s1)"
  shows "attrs_ok s1 \<and> ns_ok ns1 s1 \<and> map_of ns1 m = Some j \<and>
      (m = n \<longrightarrow> (\<exists>oc oa. wired c n oc oa s1 j \<and> (oc \<noteq> None) = bc)) \<and>
      (m \<noteq> n \<longrightarrow> chan c n bc ns1 s1 \<and> (\<forall>i. map_of ns1 n = Some i \<longrightarrow> i \<noteq> j))"
proof -
  show ?thesis
  proof (cases "map_of ns m")
    case (Some j')
    then have eq: "j = j'" "ns1 = ns" "s1 = s"
      using assms(4) by (simp_all add: namespace_signal_old)
    have a: "m = n \<longrightarrow> (\<exists>oc oa. wired c n oc oa s j' \<and> ((oc \<noteq> None) = bc))"
    proof
      assume "m = n"
      then obtain oc g where "wired c n oc (Some g) s j'" "(oc \<noteq> None) = bc"
        using assms(3) Some unfolding chan_def by auto
      then show "\<exists>oc oa. wired c n oc oa s j' \<and> ((oc \<noteq> None) = bc)" by blast
    qed
    have b: "m \<noteq> n \<longrightarrow> (\<forall>i. map_of ns n = Some i \<longrightarrow> i \<noteq> j')"
      using ns_ok_sid_inj [OF assms(2) Some] by blast
    show ?thesis
      using assms(1,2,3) Some a b by (simp add: eq)
  next
    case None
    let ?s1 = "s\<lparr> receivers := (receivers s)(next_sid s := []), next_sid := Suc (next_sid s) \<rparr>"
    have eq: "j = next_sid s" "ns1 = ns @ [(m, next_sid s)]" "s1 = ?s1"
      using assms(4) None by (auto simp: namespace_signal_new)
    have aok: "attrs_ok ?s1" using assms(1) by (simp add: attrs_ok_def)
    have nok: "ns_ok (ns @ [(m, next_sid s)]) ?s1" using ns_ok_new [OF assms(2) None] .
    have mm: "map_of (ns @ [(m, next_sid s)]) m = Some (next_sid s)"
      using None by (simp add: map_add_def)
    have a: "m = n \<longrightarrow> wired c n None None ?s1 (next_sid s) \<and> \<not> bc"
      using assms(3) None unfolding chan_def wired_def by auto
    have b: "m \<noteq> n \<longrightarrow> chan c n bc (ns @ [(m, next_sid s)]) ?s1
                \<and> (\<forall>i. map_of (ns @ [(m, next_sid s)]) n = Some i \<longrightarrow> i \<noteq> next_sid s)"
    proof
      assume mn: "m \<noteq> n"
      have lk: "map_of (ns @ [(m, next_sid s)]) n = map_of ns n"
        using mn by (cases "map_of ns n") (simp_all add: map_add_def)
      have lt: "\<And>i. map_of ns n = Some i \<Longrightarrow> i < next_sid s"
        using ns_ok_bound [OF assms(2)] by blast
      have "chan c n bc (ns @ [(m, next_sid s)]) ?s1"
      proof (cases "map_of ns n")
        case None
        then show ?thesis using assms(3) unfolding chan_def lk by simp
      next
        case (Some i)
        then have "i \<noteq> next_sid s" using lt by blast
        then have "\<And>oc oa. wired c n oc oa ?s1 i = wired c n oc oa s i"
          by (simp add: wired_def)
        then show ?thesis using assms(3) Some unfolding chan_def lk by simp
      qed
      moreover have "\<forall>i. map_of (ns @ [(m, next_sid s)]) n = Some i \<longrightarrow> i \<noteq> next_sid s"
        using lk lt by auto
      ultimately show "chan c n bc (ns @ [(m, next_sid s)]) ?s1
                \<and> (\<forall>i. map_of (ns @ [(m, next_sid s)]) n = Some i \<longrightarrow> i \<noteq> next_sid s)"
        by blast
    qed
    show ?thesis
      unfolding eq using aok nok mm a b by blast
  qed
qed

lemma declare_schema_eq:
  "namespace_signal (name (as_schema a)) ns s = (j, ns1, s1) \<Longrightarrow>
   declare_schema c a (ns, s) =
     (ns1, make_all_cascade c (name (as_schema a)) j
             (if cascade (as_schema a) then make_cascade c (name (as_schema a)) j s1 else s1))"
  by (simp add: declare_schema_def Let_def)

lemma chanI:
  "map_of ns n = Some i \<Longrightarrow> wired c n oc (Some g) s i \<Longrightarrow> (oc \<noteq> None) = bc \<Longrightarrow>
   chan c n bc ns s"
  unfolding chan_def by auto

lemma declare_schema_step:
  assumes "attrs_ok s" "ns_ok ns s" "chan c n bc ns s" "no_clash n (name (as_schema a))"
    and "declare_schema c a (ns, s) = (ns', s')"
  shows "attrs_ok s' \<and> ns_ok ns' s' \<and>
         chan c n (bc \<or> (name (as_schema a) = n \<and> cascade (as_schema a))) ns' s'"
proof -
  let ?m = "name (as_schema a)"
  let ?k = "cascade (as_schema a)"
  obtain j ns1 s1 where nsig: "namespace_signal ?m ns s = (j, ns1, s1)"
    by (metis prod_cases3)
  let ?s2 = "if ?k then make_cascade c ?m j s1 else s1"
  have res: "ns' = ns1" "s' = make_all_cascade c ?m j ?s2"
    using declare_schema_eq [OF nsig, of c] assms(5) by simp_all
  note P = namespace_signal_props [OF assms(1,2,3) nsig]
  have ok1: "attrs_ok s1" and nok1: "ns_ok ns1 s1" and mj: "map_of ns1 ?m = Some j"
    using P by blast+
  have ok2: "attrs_ok ?s2" using ok1 by (simp add: attrs_ok_make_cascade)
  have ok3: "attrs_ok s'" unfolding res using ok2 by (rule attrs_ok_make_all_cascade)
  have nok3: "ns_ok ns' s'"
    unfolding res using nok1
    by (simp add: ns_ok_def make_all_cascade_frame make_cascade_frame)
  have ch: "chan c n (bc \<or> (?m = n \<and> ?k)) ns' s'"
  proof (cases "?m = n")
    case True
    then obtain oc oa where w: "wired c n oc oa s1 j" "(oc \<noteq> None) = bc"
      using P by blast
    show ?thesis
    proof (cases ?k)
      case True
      have "wired c n (Some (CascadePadre (next_fid s1) n))
              (Some (AllCascadePadre (Suc (next_fid s1)) EVENT_TRIGGERED))
              (make_all_cascade c n j (make_cascade c n j s1)) j"
        using wired_cascade_all_same [OF ok1 w(1)] .
      then show ?thesis
        unfolding res using True \<open>?m = n\<close> mj by (auto intro!: chanI)
    next
      case False
      have "wired c n oc (Some (AllCascadePadre (next_fid s1) EVENT_TRIGGERED))
              (make_all_cascade c n j s1) j"
        using wired_make_all_same [OF ok1 w(1)] .
      then show ?thesis
        unfolding res using False \<open>?m = n\<close> mj w(2) by (auto intro!: chanI)
    qed
  next
    case False
    then have c1: "chan c n bc ns1 s1" and ne: "\<And>i. map_of ns1 n = Some i \<Longrightarrow> i \<noteq> j"
      using P by blast+
    have nc: "?m \<noteq> EVENT_TRIGGERED @ ''_'' @ n" "n \<noteq> EVENT_TRIGGERED @ ''_'' @ ?m"
      using assms(4) by (simp_all add: no_clash_def)
    show ?thesis
    proof (cases "map_of ns1 n")
      case None
      then show ?thesis using c1 False unfolding chan_def res by simp
    next
      case (Some i)
      then obtain oc g where w: "wired c n oc (Some g) s1 i" "(oc \<noteq> None) = bc"
        using c1 unfolding chan_def by auto
      have ji: "j \<noteq> i" using ne [OF Some] by simp
      have w2: "wired c n oc (Some g) ?s2 i"
        using wired_make_cascade_other [OF ok1 False nc(1) ji w(1)] w(1) by simp
      have "wired c n oc (Some g) s' i"
        unfolding res using wired_make_all_other [OF ok2 False nc(2) ji w2] .
      then show ?thesis using Some False w(2) unfolding res by (auto intro!: chanI)
    qed
  qed
  from ok3 nok3 ch show ?thesis by blast
qed

lemma declare_loop_inv:
  assumes "attrs_ok s" "ns_ok ns s" "chan c n bc ns s"
    and "\<forall>a\<in>set as. no_clash n (name (as_schema a))"
    and "declare_loop c as (ns, s) = (ns', s')"
  shows "attrs_ok s' \<and> ns_ok ns' s' \<and>
         chan c n (bc \<or> (\<exists>a\<in>set as. name (as_schema a) = n \<and> cascade (as_schema a))) ns' s'"
  using assms
proof (induction as arbitrary: ns s bc)
  case Nil
  then show ?case by simp
next
  case (Cons a as)
  obtain ns1 s1 where st: "declare_schema c a (ns, s) = (ns1, s1)"
    by (metis surj_pair)
  have step: "attrs_ok s1 \<and> ns_ok ns1 s1 \<and>
         chan c n (bc \<or> (name (as_schema a) = n \<and> cascade (as_schema a))) ns1 s1"
    using declare_schema_step [OF Cons.prems(1,2,3) _ st] Cons.prems(4) by simp
  have rest: "declare_loop c as (ns1, s1) = (ns', s')"
    using Cons.prems(5) st by simp
  have "attrs_ok s' \<and> ns_ok ns' s' \<and>
         chan c n ((bc \<or> (name (as_schema a) = n \<and> cascade (as_schema a)))
                   \<or> (\<exists>a\<in>set as. name (as_schema a) = n \<and> cascade (as_schema a))) ns' s'"
  proof -
    from step have s1: "attrs_ok s1" and s2: "ns_ok ns1 s1"
      and s3: "chan c n (bc \<or> (name (as_schema a) = n \<and> cascade (as_schema a))) ns1 s1"
      by blast+
    have s4: "\<forall>a\<in>set as. no_clash n (name (as_schema a))" using Cons.prems(4) by simp
    show ?thesis using Cons.IH [OF s1 s2 s3 s4 rest] .
  qed
  moreover have "((bc \<or> (name (as_schema a) = n \<and> cascade (as_schema a)))
                   \<or> (\<exists>a\<in>set as. name (as_schema a) = n \<and> cascade (as_schema a)))
       = (bc \<or> (\<exists>a\<in>set (a # as). name (as_schema a) = n \<and> cascade (as_schema a)))"
    by auto
  ultimately show ?case by simp
qed

lemma namespace_signal_frame:
  assumes "namespace_signal m ns s = (j, ns1, s1)"
  shows "mro_tail s1 = mro_tail s" "subclasses s1 = subclasses s"
    "signal_classes s1 = signal_classes s" "base_signals s1 = base_signals s"
    "signal_namespace s1 = signal_namespace s" "cascade_attrs s1 = cascade_attrs s"
    "next_fid s1 = next_fid s" "log s1 = log s" "next_sid s \<le> next_sid s1"
    "keys ns1 = insert m (keys ns)"
  using assms
  by (auto simp: namespace_signal_def keys_def split: option.splits dest: map_of_SomeD
      simp: rev_image_eqI)

lemma declare_schema_frame:
  assumes "declare_schema c a (ns, s) = (ns', s')"
  shows "mro_tail s' = mro_tail s" "subclasses s' = subclasses s"
    "signal_classes s' = signal_classes s" "signal_namespace s' = signal_namespace s"
    "log s' = log s" "next_sid s \<le> next_sid s'"
    "keys ns' = insert (name (as_schema a)) (keys ns)"
    "\<And>nm hs. base_signals s nm = Some hs \<Longrightarrow> base_signals s' nm = Some hs"
proof -
  obtain j ns1 s1 where nsig: "namespace_signal (name (as_schema a)) ns s = (j, ns1, s1)"
    by (metis prod_cases3)
  have res: "ns' = ns1"
    "s' = make_all_cascade c (name (as_schema a)) j
            (if cascade (as_schema a) then make_cascade c (name (as_schema a)) j s1 else s1)"
    using declare_schema_eq [OF nsig, of c] assms by simp_all
  note F = namespace_signal_frame [OF nsig]
  show "mro_tail s' = mro_tail s" "subclasses s' = subclasses s"
    "signal_classes s' = signal_classes s" "signal_namespace s' = signal_namespace s"
    "log s' = log s" "next_sid s \<le> next_sid s'"
    "keys ns' = insert (name (as_schema a)) (keys ns)"
    using F by (simp_all add: res make_all_cascade_frame make_cascade_frame)
  show "\<And>nm hs. base_signals s nm = Some hs \<Longrightarrow> base_signals s' nm = Some hs"
    using F by (auto simp: res make_all_cascade_frame make_cascade_frame)
qed

lemma declare_loop_frame:
  assumes "declare_loop c as (ns, s) = (ns', s')"
  shows "mro_tail s' = mro_tail s \<and> subclasses s' = subclasses s \<and>
    signal_classes s' = signal_classes s \<and> signal_namespace s' = signal_namespace s \<and>
    log s' = log s \<and> next_sid s \<le> next_sid s' \<and>
    keys ns' = keys ns \<union> (\<lambda>a. name (as_schema a)) ` set as \<and>
    (\<forall>nm hs. base_signals s nm = Some hs \<longrightarrow> base_signals s' nm = Some hs)"
  using assms
proof (induction as arbitrary: ns s)
  case Nil
  then show ?case by simp
next
  case (Cons a as)
  obtain ns1 s1 where st: "declare_schema c a (ns, s) = (ns1, s1)"
    by (metis surj_pair)
  have rest: "declare_loop c as (ns1, s1) = (ns', s')"
    using Cons.prems st by simp
  note F = declare_schema_frame [OF st]
  note IH = Cons.IH [OF rest]
  show ?case using F IH by auto
qed

lemma user_receivers_make_cascade [simp]:
  "user_receivers (make_cascade c m j s) i = user_receivers s i"
  by (auto simp: user_receivers_def make_cascade_receivers Let_def split: option.splits)

lemma user_receivers_make_all_cascade [simp]:
  "user_receivers (make_all_cascade c m j s) i = user_receivers s i"
  by (auto simp: user_receivers_def make_all_cascade_receivers Let_def split: option.splits)

lemma users_kept_step:
  assumes "users_kept b0 U0 ns s" "declare_schema c a (ns, s) = (ns', s')"
  shows "users_kept b0 U0 ns' s'"
proof -
  obtain j ns1 s1 where nsig: "namespace_signal (name (as_schema a)) ns s = (j, ns1, s1)"
    by (metis prod_cases3)
  have res: "ns' = ns1"
    "s' = make_all_cascade c (name (as_schema a)) j
            (if cascade (as_schema a) then make_cascade c (name (as_schema a)) j s1 else s1)"
    using declare_schema_eq [OF nsig, of c] assms(2) by simp_all
  have k1: "users_kept b0 U0 ns1 s1"
  proof (cases "map_of ns (name (as_schema a))")
    case (Some j')
    then show ?thesis using nsig assms(1) by (simp add: namespace_signal_old)
  next
    case None
    then have eq: "ns1 = ns @ [(name (as_schema a), next_sid s)]"
      "s1 = s\<lparr> receivers := (receivers s)(next_sid s := []), next_sid := Suc (next_sid s) \<rparr>"
      using nsig by (auto simp: namespace_signal_new)
    show ?thesis using assms(1) unfolding eq users_kept_def user_receivers_def
      by (auto simp: less_Suc_eq)
  qed
  show ?thesis
    using k1 unfolding res users_kept_def
    by (simp add: make_all_cascade_frame make_cascade_frame)
qed

lemma users_kept_loop:
  assumes "users_kept b0 U0 ns s" "declare_loop c as (ns, s) = (ns', s')"
  shows "users_kept b0 U0 ns' s'"
  using assms
proof (induction as arbitrary: ns s)
  case Nil
  then show ?case by simp
next
  case (Cons a as)
  obtain ns1 s1 where st: "declare_schema c a (ns, s) = (ns1, s1)"
    by (metis surj_pair)
  have rest: "declare_loop c as (ns1, s1) = (ns', s')"
    using Cons.prems(2) st by simp
  show ?case using Cons.IH [OF users_kept_step [OF Cons.prems(1) st] rest] .
qed

lemma mro_signal_classes [simp]: "mro (s\<lparr> signal_classes := X \<rparr>) c = mro s c"
  by (simp add: mro_def)

lemma getattr_signal_classes [simp]:
  "getattr_signal_namespace (s\<lparr> signal_classes := X \<rparr>) c = getattr_signal_namespace s c"
  by (simp add: getattr_signal_namespace_def mro_def)

lemma issubclass_signal_classes [simp]:
  "issubclass (s\<lparr> signal_classes := X \<rparr>) c lim = issubclass s c lim"
  by (simp add: issubclass_def mro_def)

lemma merge_loop_signal_classes [simp]:
  "merge_loop (s\<lparr> signal_classes := X \<rparr>) lim ps var = merge_loop s lim ps var"
  by (induction ps arbitrary: var) (simp_all split: option.splits)

lemma declare_schema_distinct:
  assumes "distinct (map fst ns)" "declare_schema c a (ns, s) = (ns', s')"
  shows "distinct (map fst ns')"
proof -
  obtain j ns1 s1 where nsig: "namespace_signal (name (as_schema a)) ns s = (j, ns1, s1)"
    by (metis prod_cases3)
  have res: "ns' = ns1" using declare_schema_eq [OF nsig, of c] assms(2) by simp
  show ?thesis
  proof (cases "map_of ns (name (as_schema a))")
    case (Some j')
    then show ?thesis using nsig assms(1) res by (simp add: namespace_signal_old)
  next
    case None
    then have "name (as_schema a) \<notin> fst ` set ns" by (simp add: map_of_eq_None_iff)
    then show ?thesis using nsig assms(1) res None by (auto simp: namespace_signal_new)
  qed
qed

lemma declare_loop_distinct:
  assumes "distinct (map fst ns)" "declare_loop c as (ns, s) = (ns', s')"
  shows "distinct (map fst ns')"
  using assms
proof (induction as arbitrary: ns s)
  case Nil
  then show ?case by simp
next
  case (Cons a as)
  obtain ns1 s1 where st: "declare_schema c a (ns, s) = (ns1, s1)"
    by (metis surj_pair)
  have rest: "declare_loop c as (ns1, s1) = (ns', s')"
    using Cons.prems(2) st by simp
  show ?case using Cons.IH [OF declare_schema_distinct [OF Cons.prems(1) st] rest] .
qed

lemma schemata_signal_classes [simp]:
  "schemata args c (s\<lparr> signal_classes := X \<rparr>) = schemata args c s"
  by (simp add: schemata_def inherited_schemata_def merge_dict_class_vars_def
      split: option.splits)

lemma signals_decorator_unfold:
  obtains ns' s1 where
    "declare_loop c (schemata args c s) ([], s\<lparr> signal_classes := insert c (signal_classes s) \<rparr>)
       = (ns', s1)"
    "signals_decorator args c s = s1\<lparr> signal_namespace := (signal_namespace s1)(c \<mapsto> ns') \<rparr>"
proof -
  obtain ns' s1 where
    l: "declare_loop c (schemata args c s) ([], s\<lparr> signal_classes := insert c (signal_classes s) \<rparr>)
       = (ns', s1)"
    by (metis surj_pair)
  then have "signals_decorator args c s = s1\<lparr> signal_namespace := (signal_namespace s1)(c \<mapsto> ns') \<rparr>"
    by (simp add: signals_decorator_def Let_def)
  with l show ?thesis using that by blast
qed

lemma signals_decorator_frame:
  "mro_tail (signals_decorator args c s) = mro_tail s"
  "subclasses (signals_decorator args c s) = subclasses s"
  "log (signals_decorator args c s) = log s"
  "signal_classes (signals_decorator args c s) = insert c (signal_classes s)"
  "next_sid s \<le> next_sid (signals_decorator args c s)"
  "base_signals s nm = Some hs \<Longrightarrow> base_signals (signals_decorator args c s) nm = Some hs"
  "d \<noteq> c \<Longrightarrow> signal_namespace (signals_decorator args c s) d = signal_namespace s d"
proof -
  obtain ns' s1 where
    l: "declare_loop c (schemata args c s) ([], s\<lparr> signal_classes := insert c (signal_classes s) \<rparr>)
       = (ns', s1)"
    and r: "signals_decorator args c s = s1\<lparr> signal_namespace := (signal_namespace s1)(c \<mapsto> ns') \<rparr>"
    by (rule signals_decorator_unfold)
  note F = declare_loop_frame [OF l]
  show "mro_tail (signals_decorator args c s) = mro_tail s"
    "subclasses (signals_decorator args c s) = subclasses s"
    "log (signals_decorator args c s) = log s"
    "signal_classes (signals_decorator args c s) = insert c (signal_classes s)"
    "next_sid s \<le> next_sid (signals_decorator args c s)"
    using F by (simp_all add: r)
  show "base_signals s nm = Some hs \<Longrightarrow> base_signals (signals_decorator args c s) nm = Some hs"
    using F by (simp add: r)
  show "d \<noteq> c \<Longrightarrow> signal_namespace (signals_decorator args c s) d = signal_namespace s d"
    using F by (simp add: r)
qed

text \<open>The table a declaration leaves on the class.\<close>

lemma signals_decorator_table:
  "\<exists>ns'. signal_namespace (signals_decorator args c s) c = Some ns' \<and>
     keys ns' = (\<lambda>a. name (as_schema a)) ` set (schemata args c s) \<and>
     distinct (map fst ns') \<and>
     (\<forall>e\<in>set ns'. next_sid s \<le> snd e \<and> snd e < next_sid (signals_decorator args c s) \<and>
                    user_receivers (signals_decorator args c s) (snd e) = {})"
proof -
  let ?s0 = "s\<lparr> signal_classes := insert c (signal_classes s) \<rparr>"
  obtain ns' s1 where
    l: "declare_loop c (schemata args c s) ([], ?s0) = (ns', s1)"
    and r: "signals_decorator args c s = s1\<lparr> signal_namespace := (signal_namespace s1)(c \<mapsto> ns') \<rparr>"
    by (rule signals_decorator_unfold)
  note F = declare_loop_frame [OF l]
  have "users_kept (next_sid s) (user_receivers s) [] ?s0"
    by (simp add: users_kept_def user_receivers_def)
  then have K: "users_kept (next_sid s) (user_receivers s) ns' s1"
    using users_kept_loop l by blast
  have d: "distinct (map fst ns')"
    using declare_loop_distinct [OF _ l] by simp
  have u: "\<forall>e\<in>set ns'. next_sid s \<le> snd e \<and> snd e < next_sid s1 \<and> user_receivers s1 (snd e) = {}"
    using K unfolding users_kept_def by blast
  have u': "\<And>i X. user_receivers (s1\<lparr> signal_namespace := X \<rparr>) i = user_receivers s1 i"
    by (simp add: user_receivers_def)
  show ?thesis
    using F d u by (simp add: r u' keys_def)
qed

lemma signals_decorator_old_users:
  assumes "i < next_sid s"
  shows "user_receivers (signals_decorator args c s) i = user_receivers s i"
proof -
  let ?s0 = "s\<lparr> signal_classes := insert c (signal_classes s) \<rparr>"
  obtain ns' s1 where
    l: "declare_loop c (schemata args c s) ([], ?s0) = (ns', s1)"
    and r: "signals_decorator args c s = s1\<lparr> signal_namespace := (signal_namespace s1)(c \<mapsto> ns') \<rparr>"
    by (rule signals_decorator_unfold)
  have "users_kept (next_sid s) (user_receivers s) [] ?s0"
    by (simp add: users_kept_def user_receivers_def)
  then have K: "users_kept (next_sid s) (user_receivers s) ns' s1"
    using users_kept_loop l by blast
  then have "user_receivers s1 i = user_receivers s i"
    using assms unfolding users_kept_def by blast
  then show ?thesis by (simp add: r user_receivers_def)
qed

text \<open>
  After a declaration the channel of a declared name holds exactly the forwarding
  closures: the one to the base signal of the same name when a schema of that name
  cascades, and then the one to the universal signal.
\<close>

lemma signals_decorator_wired:
  assumes "attrs_ok s"
    and "\<forall>a\<in>set (schemata args c s). no_clash n (name (as_schema a))"
    and "n \<in> (\<lambda>a. name (as_schema a)) ` set (schemata args c s)"
  shows "attrs_ok (signals_decorator args c s) \<and>
    (\<exists>ns' i oc g. signal_namespace (signals_decorator args c s) c = Some ns' \<and>
       map_of ns' n = Some i \<and> wired c n oc (Some g) (signals_decorator args c s) i \<and>
       ((oc \<noteq> None) = cascading (schemata args c s) n))"
proof -
  let ?s0 = "s\<lparr> signal_classes := insert c (signal_classes s) \<rparr>"
  obtain ns' s1 where
    l: "declare_loop c (schemata args c s) ([], ?s0) = (ns', s1)"
    and r: "signals_decorator args c s = s1\<lparr> signal_namespace := (signal_namespace s1)(c \<mapsto> ns') \<rparr>"
    by (rule signals_decorator_unfold)
  have a0: "attrs_ok ?s0" using assms(1) by (simp add: attrs_ok_def)
  have n0: "ns_ok [] ?s0" by (simp add: ns_ok_def)
  have c0: "chan c n False [] ?s0" by (simp add: chan_def)
  have inv: "attrs_ok s1 \<and> ns_ok ns' s1 \<and>
         chan c n (False \<or> (\<exists>a\<in>set (schemata args c s). name (as_schema a) = n \<and> cascade (as_schema a))) ns' s1"
    using declare_loop_inv [OF a0 n0 c0 assms(2) l] .
  have "n \<in> keys ns'" using declare_loop_frame [OF l] assms(3) by (simp add: keys_def)
  then obtain i where i: "map_of ns' n = Some i"
    by (cases "map_of ns' n") (auto simp: keys_def map_of_eq_None_iff)
  then obtain oc g where w: "wired c n oc (Some g) s1 i"
    "(oc \<noteq> None) = cascading (schemata args c s) n"
    using inv unfolding chan_def cascading_def by auto
  have w': "wired c n oc (Some g) (signals_decorator args c s) i"
    using w(1) by (simp add: r wired_def)
  have ok: "attrs_ok (signals_decorator args c s)"
    using inv by (simp add: r attrs_ok_def)
  have "signal_namespace (signals_decorator args c s) c = Some ns'" by (simp add: r)
  with ok i w' w(2) show ?thesis by blast
qed

lemma map_of_in_keys: "map_of ns n = Some i \<Longrightarrow> n \<in> keys ns"
  by (auto simp: keys_def dest: map_of_SomeD intro: rev_image_eqI)

lemma call_padre_ok:
  "''sender'' \<notin> keys kw \<Longrightarrow> base_signals s nm = Some hs \<Longrightarrow>
   call_padre nm x kw s = (None, s\<lparr> log := log s @ map (\<lambda>h. (h, x, kw)) hs \<rparr>)"
  by (simp add: call_padre_def)

lemma emit_wired:
  assumes "getattr_signal_namespace s c = Some ns" "map_of ns (name sg) = Some i"
    and "wired c' (name sg) oc (Some g) s i"
    and "base_signals s EVENT_TRIGGERED = Some hsE"
    and "''sender'' \<notin> keys kw" "''signal'' \<notin> keys kw"
    and "sender = [x]"
  shows "emit c sg sender kw s =
           (None, s\<lparr> log := log s @
              map (\<lambda>h. (h, x, (''signal'', Sch sg) # kw))
                ((case oc of None \<Rightarrow> [] | Some f \<Rightarrow> handlers_of s (name sg)) @ hsE) \<rparr>)"
proof -
  let ?kw = "(''signal'', Sch sg) # kw"
  have ks: "''sender'' \<notin> keys ?kw" using assms(5) by (simp add: keys_def)
  obtain k where g: "g = AllCascadePadre k EVENT_TRIGGERED"
    using assms(3) unfolding wired_def by blast
  show ?thesis
  proof (cases oc)
    case None
    then have r: "receivers s i = [Padre (AllCascadePadre k EVENT_TRIGGERED)]"
      using assms(3) g unfolding wired_def by simp
    show ?thesis
      using assms(1,2,6,7) None
      by (simp add: emit_def signals_def signal_send_def r call_padre_ok [OF ks assms(4)])
  next
    case (Some f)
    then obtain k' hsN where f: "f = CascadePadre k' (name sg)"
      and b: "base_signals s (name sg) = Some hsN"
      using assms(3) unfolding wired_def by blast
    have r: "receivers s i = [Padre (CascadePadre k' (name sg)), Padre (AllCascadePadre k EVENT_TRIGGERED)]"
      using assms(3) g f Some unfolding wired_def by simp
    show ?thesis
      using assms(1,2,6,7) Some
      by (simp add: emit_def signals_def signal_send_def r call_padre_ok [OF ks]
          b assms(4) handlers_of_def)
  qed
qed

lemma send_cls_signal_wired:
  assumes "getattr_signal_namespace s c = Some ns" "map_of ns (name sg) = Some i"
    and "wired c' (name sg) oc (Some g) s i"
    and "base_signals s EVENT_TRIGGERED = Some hsE"
    and "''sender'' \<notin> keys kw" "''signal'' \<notin> keys kw"
    and "length sender \<le> 1"
  shows "send_cls_signal c sg sender True kw s =
           (None, s\<lparr> log := log s @
              map (\<lambda>h. (h, default_sender (Cls c) sender, (''signal'', Sch sg) # kw))
                ((case oc of None \<Rightarrow> [] | Some f \<Rightarrow> handlers_of s (name sg)) @ hsE) \<rparr>)"
proof -
  have k: "name sg \<in> keys ns" using assms(2) by (rule map_of_in_keys)
  let ?sender1 = "if length sender = 0 then [Cls c] else sender"
  have s1: "?sender1 = [default_sender (Cls c) sender]"
    using assms(7) by (cases sender) (auto simp: default_sender_def)
  have "send_cls_signal c sg sender True kw s = emit c sg ?sender1 kw s"
    using assms(1) k by (simp add: send_cls_signal_def signals_def Let_def)
  then show ?thesis
    using emit_wired [OF assms(1,2,3,4,5,6) s1] by simp
qed




text \<open>A declaration creates base signals without handlers and leaves the others.\<close>

lemma declare_schema_base:
  assumes "declare_schema c a (ns, s) = (ns', s')" "base_signals s' nm = Some hs"
  shows "base_signals s nm = Some hs \<or> hs = []"
proof -
  obtain j ns1 s1 where nsig: "namespace_signal (name (as_schema a)) ns s = (j, ns1, s1)"
    by (metis prod_cases3)
  have res: "s' = make_all_cascade c (name (as_schema a)) j
            (if cascade (as_schema a) then make_cascade c (name (as_schema a)) j s1 else s1)"
    using declare_schema_eq [OF nsig, of c] assms(1) by simp
  note F = namespace_signal_frame [OF nsig]
  show ?thesis
    using assms(2) F(4)
    by (auto simp: res make_all_cascade_frame make_cascade_frame split: if_splits)
qed

lemma declare_loop_base:
  assumes "declare_loop c as (ns, s) = (ns', s')" "base_signals s' nm = Some hs"
  shows "base_signals s nm = Some hs \<or> hs = []"
  using assms
proof (induction as arbitrary: ns s)
  case Nil
  then show ?case by simp
next
  case (Cons a as)
  obtain ns1 s1 where st: "declare_schema c a (ns, s) = (ns1, s1)"
    by (metis surj_pair)
  have rest: "declare_loop c as (ns1, s1) = (ns', s')"
    using Cons.prems(1) st by simp
  have "base_signals s1 nm = Some hs \<or> hs = []"
    using Cons.IH [OF rest Cons.prems(2)] .
  then show ?case using declare_schema_base [OF st] by blast
qed

lemma signals_decorator_base:
  assumes "base_signals (signals_decorator args c s) nm = Some hs"
  shows "base_signals s nm = Some hs \<or> hs = []"
proof -
  obtain ns' s1 where
    l: "declare_loop c (schemata args c s) ([], s\<lparr> signal_classes := insert c (signal_classes s) \<rparr>)
       = (ns', s1)"
    and r: "signals_decorator args c s = s1\<lparr> signal_namespace := (signal_namespace s1)(c \<mapsto> ns') \<rparr>"
    by (rule signals_decorator_unfold)
  have "base_signals s1 nm = Some hs" using assms by (simp add: r)
  then show ?thesis using declare_loop_base [OF l] by simp
qed

lemma handlers_of_signals_decorator:
  "handlers_of (signals_decorator args c s) nm = handlers_of s nm"
proof (cases "base_signals (signals_decorator args c s) nm")
  case None
  then have "base_signals s nm = None"
    using signals_decorator_frame(6) [of s nm _ args c] by (cases "base_signals s nm") auto
  with None show ?thesis by (simp add: handlers_of_def)
next
  case (Some hs)
  show ?thesis
  proof (cases "base_signals s nm")
    case None
    then show ?thesis using Some signals_decorator_base [OF Some] by (auto simp: handlers_of_def)
  next
    case (Some hs')
    then show ?thesis using signals_decorator_frame(6) [OF Some] by (simp add: handlers_of_def)
  qed
qed


lemma connect_base_signal_frame:
  "mro_tail (connect_base_signal nm f s) = mro_tail s"
  "subclasses (connect_base_signal nm f s) = subclasses s"
  "signal_classes (connect_base_signal nm f s) = signal_classes s"
  "signal_namespace (connect_base_signal nm f s) = signal_namespace s"
  "cascade_attrs (connect_base_signal nm f s) = cascade_attrs s"
  "receivers (connect_base_signal nm f s) = receivers s"
  "next_sid (connect_base_signal nm f s) = next_sid s"
  "next_fid (connect_base_signal nm f s) = next_fid s"
  "log (connect_base_signal nm f s) = log s"
  by (simp_all add: connect_base_signal_def Let_def)

lemma connect_base_signal_base:
  "base_signals (connect_base_signal nm f s) nm' =
     (if nm' = nm
      then Some (if f \<in> set (handlers_of s nm) then handlers_of s nm else handlers_of s nm @ [f])
      else base_signals s nm')"
  by (cases "base_signals s nm") (simp_all add: connect_base_signal_def Let_def handlers_of_def)

lemma handlers_of_connect_base_signal:
  "handlers_of (connect_base_signal nm f s) nm' =
     (if nm' = nm
      then (if f \<in> set (handlers_of s nm) then handlers_of s nm else handlers_of s nm @ [f])
      else handlers_of s nm')"
  by (simp add: handlers_of_def connect_base_signal_base)

lemma getattr_connect_base_signal [simp]:
  "getattr_signal_namespace (connect_base_signal nm f s) c = getattr_signal_namespace s c"
  by (simp add: getattr_signal_namespace_def mro_def connect_base_signal_frame)

lemma wired_connect_base_signal:
  "wired c n oc oa s i \<Longrightarrow> wired c n oc oa (connect_base_signal nm f s) i"
  unfolding wired_def
  by (auto simp: connect_base_signal_frame connect_base_signal_base)


lemma new_log_append [simp]: "new_log s (s\<lparr> log := log s @ l \<rparr>) = l"
  by (simp add: new_log_def)

lemma wf_init_state: "wf init_state"
  by (simp add: wf_def attrs_ok_def init_state_def)

lemma wf_def_subclass: "wf s \<Longrightarrow> wf (def_subclass c b s)"
  by (simp add: wf_def attrs_ok_def def_subclass_def)

lemma wf_connect_base_signal: "wf s \<Longrightarrow> wf (connect_base_signal nm f s)"
  unfolding wf_def attrs_ok_def
  apply (simp add: connect_base_signal_frame connect_base_signal_base)
  apply (auto simp: handlers_of_def split: option.splits)
  done

lemma attrs_ok_declare_schema:
  assumes "attrs_ok s" "declare_schema c a (ns, s) = (ns', s')"
  shows "attrs_ok s'"
proof -
  obtain j ns1 s1 where nsig: "namespace_signal (name (as_schema a)) ns s = (j, ns1, s1)"
    by (metis prod_cases3)
  have res: "s' = make_all_cascade c (name (as_schema a)) j
            (if cascade (as_schema a) then make_cascade c (name (as_schema a)) j s1 else s1)"
    using declare_schema_eq [OF nsig, of c] assms(2) by simp
  note F = namespace_signal_frame [OF nsig]
  have "attrs_ok s1" using assms(1) F by (simp add: attrs_ok_def)
  then show ?thesis unfolding res
    by (simp add: attrs_ok_make_cascade attrs_ok_make_all_cascade)
qed

lemma attrs_ok_declare_loop:
  assumes "attrs_ok s" "declare_loop c as (ns, s) = (ns', s')"
  shows "attrs_ok s'"
  using assms
proof (induction as arbitrary: ns s)
  case Nil
  then show ?case by simp
next
  case (Cons a as)
  obtain ns1 s1 where st: "declare_schema c a (ns, s) = (ns1, s1)"
    by (metis surj_pair)
  have rest: "declare_loop c as (ns1, s1) = (ns', s')"
    using Cons.prems(2) st by simp
  show ?case using Cons.IH [OF attrs_ok_declare_schema [OF Cons.prems(1) st] rest] .
qed

lemma attrs_ok_signals_decorator:
  assumes "attrs_ok s"
  shows "attrs_ok (signals_decorator args c s)"
proof -
  let ?s0 = "s\<lparr> signal_classes := insert c (signal_classes s) \<rparr>"
  obtain ns' s1 where
    l: "declare_loop c (schemata args c s) ([], ?s0) = (ns', s1)"
    and r: "signals_decorator args c s = s1\<lparr> signal_namespace := (signal_namespace s1)(c \<mapsto> ns') \<rparr>"
    by (rule signals_decorator_unfold)
  have "attrs_ok ?s0" using assms by (simp add: attrs_ok_def)
  then have "attrs_ok s1" using attrs_ok_declare_loop l by blast
  then show ?thesis by (simp add: r attrs_ok_def)
qed

lemma wf_signals_decorator:
  assumes "wf s"
  shows "wf (signals_decorator args c s)"
proof -
  let ?s' = "signals_decorator args c s"
  obtain ns' where t: "signal_namespace ?s' c = Some ns'" "distinct (map fst ns')"
    "\<forall>e\<in>set ns'. snd e < next_sid ?s'"
    using signals_decorator_table [of args c s] by blast
  have 1: "attrs_ok ?s'" using assms attrs_ok_signals_decorator by (simp add: wf_def)
  have 2: "base_signals ?s' EVENT_TRIGGERED \<noteq> None"
    using assms signals_decorator_frame(6) [of s EVENT_TRIGGERED _ args c] by (auto simp: wf_def)
  have 3: "\<forall>nm hs. base_signals ?s' nm = Some hs \<longrightarrow> distinct hs"
    using assms signals_decorator_base [of args c s] by (fastforce simp: wf_def)
  have 4: "\<forall>d ns. signal_namespace ?s' d = Some ns \<longrightarrow>
         distinct (map fst ns) \<and> (\<forall>e\<in>set ns. snd e < next_sid ?s')"
  proof (intro allI impI)
    fix d ns assume d: "signal_namespace ?s' d = Some ns"
    show "distinct (map fst ns) \<and> (\<forall>e\<in>set ns. snd e < next_sid ?s')"
    proof (cases "d = c")
      case True
      then show ?thesis using d t by simp
    next
      case False
      then have "signal_namespace s d = Some ns"
        using d signals_decorator_frame(7) [OF False, of args s] by simp
      then have "distinct (map fst ns)" "\<forall>e\<in>set ns. snd e < next_sid s"
        using assms by (auto simp: wf_def)
      then show ?thesis using signals_decorator_frame(5) [of s args c] by fastforce
    qed
  qed
  have 5: "\<forall>d\<in>signal_classes ?s'. signal_namespace ?s' d \<noteq> None"
  proof
    fix d assume "d \<in> signal_classes ?s'"
    then have "d = c \<or> d \<in> signal_classes s" by (simp add: signals_decorator_frame)
    then show "signal_namespace ?s' d \<noteq> None"
    proof (cases "d = c")
      case True
      then show ?thesis using t(1) by simp
    next
      case False
      with \<open>d = c \<or> d \<in> signal_classes s\<close> have "signal_namespace s d \<noteq> None"
        using assms by (auto simp: wf_def)
      then show ?thesis using signals_decorator_frame(7) [OF False, of args s] by simp
    qed
  qed
  from 1 2 3 4 5 show ?thesis unfolding wf_def by blast
qed

text \<open>The calls made by one emission after a declaration and a connection to a base signal.\<close>

lemma emission_after_declaration:
  assumes "wf s"
    and "name e \<in> (\<lambda>a. name (as_schema a)) ` set (schemata args T s)"
    and "\<forall>a\<in>set (schemata args T s). no_clash (name e) (name (as_schema a))"
    and "''sender'' \<notin> keys kw" and "''signal'' \<notin> keys kw" and "length sender \<le> 1"
    and "s2 = connect_base_signal nm h (signals_decorator args T s)"
  shows "send_cls_signal T e sender True kw s2 =
      (None, s2\<lparr> log := log s2 @
          map (\<lambda>h. (h, default_sender (Cls T) sender, (''signal'', Sch e) # kw))
            ((if cascading (schemata args T s) (name e) then handlers_of s2 (name e) else [])
             @ handlers_of s2 EVENT_TRIGGERED) \<rparr>)"
proof -
  let ?n = "name e"
  let ?s1 = "signals_decorator args T s"
  have aok: "attrs_ok s" using assms(1) by (simp add: wf_def)
  obtain ns' i oc g where t: "signal_namespace ?s1 T = Some ns'" "map_of ns' ?n = Some i"
    "wired T ?n oc (Some g) ?s1 i" "(oc \<noteq> None) = cascading (schemata args T s) ?n"
    using signals_decorator_wired [OF aok assms(3) assms(2)] by blast
  have g2: "getattr_signal_namespace s2 T = Some ns'"
    using t(1) by (simp add: assms(7) getattr_own)
  have w2: "wired T ?n oc (Some g) s2 i"
    unfolding assms(7) using wired_connect_base_signal [OF t(3)] .
  obtain hsE where bE: "base_signals s EVENT_TRIGGERED = Some hsE"
    using assms(1) by (auto simp: wf_def)
  have "base_signals ?s1 EVENT_TRIGGERED = Some hsE"
    using signals_decorator_frame(6) [OF bE] .
  then have bE2: "base_signals s2 EVENT_TRIGGERED = Some (handlers_of s2 EVENT_TRIGGERED)"
    by (simp add: assms(7) connect_base_signal_base handlers_of_def)
  have oc: "(case oc of None \<Rightarrow> [] | Some f \<Rightarrow> handlers_of s2 ?n)
      = (if cascading (schemata args T s) ?n then handlers_of s2 ?n else [])"
    using t(4) by (cases oc) auto
  show ?thesis
    using send_cls_signal_wired [OF g2 t(2) w2 bE2 assms(4,5,6)] oc by simp
qed

lemma wf_ex_s0: "wf ex_s0"
  by (simp add: ex_s0_def wf_def_subclass wf_init_state)

lemma ex_s0_schemata: "schemata args ex_A ex_s0 = args"
  by (simp add: schemata_def getattr_signal_namespace_def mro_def ex_s0_def def_subclass_def
      init_state_def ex_A_def Signaler_def)

lemma ex_s0_handlers: "handlers_of ex_s0 nm = []"
  by (simp add: handlers_of_def ex_s0_def def_subclass_def init_state_def)

text \<open>The table and the channel counter after one turn of the loop, for evaluation.\<close>

lemma declare_schema_table:
  "fst (declare_schema c a p) =
     (case map_of (fst p) (name (as_schema a)) of
        Some i \<Rightarrow> fst p
      | None \<Rightarrow> fst p @ [(name (as_schema a), next_sid (snd p))])"
  by (cases p) (simp add: declare_schema_def Let_def namespace_signal_def split: option.splits)

lemma declare_schema_next_sid:
  "next_sid (snd (declare_schema c a p)) =
     (case map_of (fst p) (name (as_schema a)) of
        Some i \<Rightarrow> next_sid (snd p)
      | None \<Rightarrow> Suc (next_sid (snd p)))"
  by (cases p) (simp add: declare_schema_def Let_def namespace_signal_def make_all_cascade_frame
      make_cascade_frame split: option.splits)

lemma signals_decorator_namespace:
  "signal_namespace (signals_decorator args c s) =
     (signal_namespace s)(c \<mapsto> fst (declare_loop c (schemata args c s)
         ([], s\<lparr> signal_classes := insert c (signal_classes s) \<rparr>)))"
proof -
  obtain ns' s1 where
    l: "declare_loop c (schemata args c s) ([], s\<lparr> signal_classes := insert c (signal_classes s) \<rparr>)
       = (ns', s1)"
    and r: "signals_decorator args c s = s1\<lparr> signal_namespace := (signal_namespace s1)(c \<mapsto> ns') \<rparr>"
    by (rule signals_decorator_unfold)
  show ?thesis using declare_loop_frame [OF l] by (simp add: r l)
qed

lemma signals_decorator_next_sid:
  "next_sid (signals_decorator args c s) =
     next_sid (snd (declare_loop c (schemata args c s)
         ([], s\<lparr> signal_classes := insert c (signal_classes s) \<rparr>)))"
  by (simp add: signals_decorator_def Let_def)

lemma declare_loop_Nil_proj: "fst (declare_loop c [] p) = fst p" "snd (declare_loop c [] p) = snd p"
  by simp_all

lemma declare_loop_single_table:
  "fst (declare_loop c [a] ([], s)) = [(name (as_schema a), next_sid s)]"
  "next_sid (snd (declare_loop c [a] ([], s))) = Suc (next_sid s)"
  by (simp_all add: declare_schema_table declare_schema_next_sid)

lemma ex_s0_fields:
  "mro_tail ex_s0 = (\<lambda>c. [])(ex_A := [Signaler])"
  "signal_namespace ex_s0 = Map.empty"
  "signal_classes ex_s0 = {}"
  "next_sid ex_s0 = 0"
  "log ex_s0 = []"
  by (simp_all add: ex_s0_def def_subclass_def init_state_def mro_def)

lemma ex_sA_fields:
  "mro_tail ex_sA = (\<lambda>c. [])(ex_A := [Signaler])"
  "signal_namespace ex_sA = [ex_A \<mapsto> [(''created'', 0)]]"
  "signal_classes ex_sA = {ex_A}"
  "next_sid ex_sA = 1"
  "log ex_sA = []"
  by (simp_all add: ex_sA_def signals_decorator_frame signals_decorator_namespace
      signals_decorator_next_sid ex_s0_schemata declare_schema_table declare_schema_next_sid
      ex_s0_fields ex_created_def)

lemmas lookup_defs = getattr_signal_namespace_def mro_def issubclass_def signals_def
  merge_dict_class_vars_def dict_merge_def inherited_schemata_def schemata_def keys_def

lemma ex_classes [simp]:
  "ex_A \<noteq> ex_B" "ex_B \<noteq> ex_A" "ex_A \<noteq> Signaler" "Signaler \<noteq> ex_A" "ex_B \<noteq> Signaler"
  "Signaler \<noteq> ex_B" "ex_C \<noteq> ex_A" "ex_A \<noteq> ex_C" "ex_C \<noteq> ex_B" "ex_B \<noteq> ex_C"
  "ex_C \<noteq> Signaler" "Signaler \<noteq> ex_C" "ex_D \<noteq> ex_A" "ex_A \<noteq> ex_D" "ex_D \<noteq> ex_B"
  "ex_B \<noteq> ex_D" "ex_D \<noteq> ex_C" "ex_C \<noteq> ex_D" "ex_D \<noteq> Signaler" "Signaler \<noteq> ex_D"
  by (simp_all add: ex_A_def ex_B_def ex_C_def ex_D_def Signaler_def)

lemma ex_sAb_fields:
  "mro_tail ex_sAb = (\<lambda>c. [])(ex_A := [Signaler], ex_B := [ex_A, Signaler])"
  "signal_namespace ex_sAb = [ex_A \<mapsto> [(''created'', 0)]]"
  "signal_classes ex_sAb = {ex_A}"
  "next_sid ex_sAb = 1"
  "log ex_sAb = []"
  by (simp_all add: ex_sAb_def def_subclass_def ex_sA_fields mro_def)

lemma ex_sAb_schemata:
  "map (\<lambda>a. name (as_schema a)) (schemata args ex_B ex_sAb)
     = map (\<lambda>a. name (as_schema a)) args @ [''created'']"
  by (simp add: lookup_defs ex_sAb_fields comp_def)

lemma ex_sAB_fields:
  "mro_tail ex_sAB = (\<lambda>c. [])(ex_A := [Signaler], ex_B := [ex_A, Signaler])"
  "signal_namespace ex_sAB = [ex_A \<mapsto> [(''created'', 0)], ex_B \<mapsto> [(''created'', 1)]]"
  "signal_classes ex_sAB = {ex_B, ex_A}"
  by (simp_all add: ex_sAB_def signals_decorator_frame signals_decorator_namespace
      lookup_defs declare_schema_table declare_schema_next_sid ex_sAb_fields)

text \<open>
  The test \<^verbatim>\<open>x.__name__ == "cascade"\<close> looks for a handler of a caller with that name: the
  closures of the module are named \<^verbatim>\<open>__cascade_padre\<close> and \<^verbatim>\<open>__all_cascade_padre\<close>.
\<close>

lemma receiver_name_padre: "receiver_name (Padre f) \<noteq> ''cascade''"
  by (cases f) simp_all

lemma is_cascading_iff:
  "is_cascading rs = (\<exists>f. User f \<in> set rs \<and> fn_name f = ''cascade'')"
proof -
  have "\<And>x. (x \<in> set rs \<and> receiver_name x = ''cascade'')
            = (\<exists>f. x = User f \<and> User f \<in> set rs \<and> fn_name f = ''cascade'')"
  proof -
    fix x show "(x \<in> set rs \<and> receiver_name x = ''cascade'')
            = (\<exists>f. x = User f \<and> User f \<in> set rs \<and> fn_name f = ''cascade'')"
      by (cases x) (auto simp: receiver_name_padre)
  qed
  then show ?thesis unfolding is_cascading_def list_ex_iff by blast
qed

lemma is_cascading_no_users:
  "user_receivers s i = {} \<Longrightarrow> is_cascading (receivers s i) = False"
  by (auto simp: is_cascading_iff user_receivers_def)

lemma emission_declared:
  assumes "wf s"
    and "name e \<in> (\<lambda>a. name (as_schema a)) ` set (schemata args T s)"
    and "\<forall>a\<in>set (schemata args T s). no_clash (name e) (name (as_schema a))"
    and "''sender'' \<notin> keys kw" and "''signal'' \<notin> keys kw" and "length sender \<le> 1"
    and "s1 = signals_decorator args T s"
  shows "send_cls_signal T e sender True kw s1 =
      (None, s1\<lparr> log := log s1 @
          map (\<lambda>h. (h, default_sender (Cls T) sender, (''signal'', Sch e) # kw))
            ((if cascading (schemata args T s) (name e) then handlers_of s (name e) else [])
             @ handlers_of s EVENT_TRIGGERED) \<rparr>)"
proof -
  let ?n = "name e"
  have aok: "attrs_ok s" using assms(1) by (simp add: wf_def)
  obtain ns' i oc g where t: "signal_namespace s1 T = Some ns'" "map_of ns' ?n = Some i"
    "wired T ?n oc (Some g) s1 i" "(oc \<noteq> None) = cascading (schemata args T s) ?n"
    using signals_decorator_wired [OF aok assms(3) assms(2)] unfolding assms(7) by blast
  have g2: "getattr_signal_namespace s1 T = Some ns'"
    using t(1) by (simp add: getattr_own)
  obtain hsE where bE: "base_signals s EVENT_TRIGGERED = Some hsE"
    using assms(1) by (auto simp: wf_def)
  have bE2: "base_signals s1 EVENT_TRIGGERED = Some (handlers_of s EVENT_TRIGGERED)"
    using signals_decorator_frame(6) [OF bE] bE by (simp add: assms(7) handlers_of_def)
  have oc: "(case oc of None \<Rightarrow> [] | Some f \<Rightarrow> handlers_of s1 ?n)
      = (if cascading (schemata args T s) ?n then handlers_of s ?n else [])"
    using t(4) by (cases oc) (auto simp: assms(7) handlers_of_signals_decorator)
  show ?thesis
    using send_cls_signal_wired [OF g2 t(2) t(3) bE2 assms(4,5,6)] oc by simp
qed

lemma wf_ex_sA: "wf ex_sA"
  by (simp add: ex_sA_def wf_signals_decorator wf_ex_s0)

lemma ex_sA_users: "user_receivers ex_sA 0 = {}"
proof -
  obtain ns' where t: "signal_namespace ex_sA ex_A = Some ns'"
    "\<forall>e\<in>set ns'. user_receivers ex_sA (snd e) = {}"
    using signals_decorator_table [of "[SchemaArg ex_created]" ex_A ex_s0]
    unfolding ex_sA_def by blast
  from t(1) have "ns' = [(''created'', 0)]" by (simp add: ex_sA_fields)
  with t(2) show ?thesis by simp
qed

lemma ex_sA_handlers: "handlers_of ex_sA nm = []"
  by (simp add: ex_sA_def handlers_of_signals_decorator ex_s0_handlers)

lemma def_subclass_frame:
  "signal_classes (def_subclass c b s) = signal_classes s"
  "base_signals (def_subclass c b s) = base_signals s"
  "signal_namespace (def_subclass c b s) = signal_namespace s"
  "cascade_attrs (def_subclass c b s) = cascade_attrs s"
  "receivers (def_subclass c b s) = receivers s"
  "next_sid (def_subclass c b s) = next_sid s"
  "next_fid (def_subclass c b s) = next_fid s"
  "log (def_subclass c b s) = log s"
  "mro_tail (def_subclass c b s) = (mro_tail s)(c := b # mro_tail s b)"
  "subclasses (def_subclass c b s) = (subclasses s)(b := subclasses s b @ [c], c := [])"
  by (simp_all add: def_subclass_def mro_def)

lemma user_receivers_def_subclass [simp]:
  "user_receivers (def_subclass c b s) = user_receivers s"
  by (simp add: user_receivers_def fun_eq_iff def_subclass_frame)

lemma user_receivers_connect_base_signal [simp]:
  "user_receivers (connect_base_signal nm f s) = user_receivers s"
  by (simp add: user_receivers_def fun_eq_iff connect_base_signal_frame)

lemma handlers_of_def_subclass [simp]:
  "handlers_of (def_subclass c b s) = handlers_of s"
  by (simp add: handlers_of_def fun_eq_iff def_subclass_frame)

lemma ex_sAhb_fields:
  "mro_tail ex_sAhb = (\<lambda>c. [])(ex_A := [Signaler], ex_B := [ex_A, Signaler])"
  "signal_namespace ex_sAhb = [ex_A \<mapsto> [(''created'', 0)]]"
  "signal_classes ex_sAhb = {ex_A}"
  "next_sid ex_sAhb = 1"
  "log ex_sAhb = []"
  "user_receivers ex_sAhb 0 = {}"
  "handlers_of ex_sAhb EVENT_TRIGGERED = []"
  "handlers_of ex_sAhb ''created'' = [ex_h]"
  by (simp_all add: ex_sAhb_def ex_sAh_def def_subclass_frame connect_base_signal_frame
      ex_sA_fields ex_sA_users handlers_of_connect_base_signal ex_sA_handlers
      EVENT_TRIGGERED_def)

lemma wf_ex_sAhb: "wf ex_sAhb"
  by (simp add: ex_sAhb_def ex_sAh_def wf_def_subclass wf_connect_base_signal wf_ex_sA)

lemma ex_sAhb_schemata:
  "schemata [] ex_B ex_sAhb = [SchemaArg \<lparr> name = ''created'', cascade = False \<rparr>]"
  by (simp add: lookup_defs ex_sAhb_fields is_cascading_no_users)

lemma ex_sAhB_eq: "ex_sAhB = signals_decorator [] ex_B ex_sAhb"
  by (simp add: ex_sAhB_def init_class_signals_def ex_sAhb_fields)

lemma user_receivers_signal_connect:
  "user_receivers (signal_connect i (User f) s) j =
     (if j = i then insert f (user_receivers s i) else user_receivers s j)"
  by (auto simp: user_receivers_def signal_connect_receivers)

lemma is_cascading_users:
  "is_cascading (receivers s i) = (\<exists>f\<in>user_receivers s i. fn_name f = ''cascade'')"
  by (auto simp: is_cascading_iff user_receivers_def)

lemma wf_signal_connect: "wf (signal_connect i r s) = wf s"
  by (simp add: wf_def attrs_ok_def signal_connect_frame)

lemma getattr_signal_connect [simp]:
  "getattr_signal_namespace (signal_connect i r s) c = getattr_signal_namespace s c"
  by (simp add: getattr_signal_namespace_def mro_def signal_connect_frame)

lemma issubclass_signal_connect [simp]:
  "issubclass (signal_connect i r s) c lim = issubclass s c lim"
  by (simp add: issubclass_def mro_def signal_connect_frame)

lemma handlers_of_signal_connect [simp]:
  "handlers_of (signal_connect i r s) = handlers_of s"
  by (simp add: handlers_of_def fun_eq_iff signal_connect_frame)

text \<open>Connecting to a class that is in the registry.\<close>

lemma connect_class_signal_declared:
  assumes "T \<in> signal_classes s" "issubclass s T Signaler"
    and "getattr_signal_namespace s T = Some ns" "map_of ns n = Some i"
  shows "connect_class_signal T n f s = (None, signal_connect i (User f) s)"
  using assms by (simp add: connect_class_signal_def init_class_signals_def signals_def Let_def)

lemma keys_merge_loop: "keys var \<subseteq> keys (merge_loop s lim ps var)"
proof (induction ps arbitrary: var)
  case Nil
  then show ?case by simp
next
  case (Cons p ps)
  show ?case
  proof (cases "getattr_signal_namespace s p")
    case None
    then show ?thesis using Cons.IH [of var] by simp
  next
    case (Some d)
    have "keys var \<subseteq> keys (dict_merge var d)" by (simp add: keys_dict_merge)
    then show ?thesis using Some Cons.IH [of var] Cons.IH [of "dict_merge var d"] by auto
  qed
qed

text \<open>A class that can emit inherits, at its declaration, the names of the table it sees.\<close>

lemma schemata_inherits:
  assumes "issubclass s T Signaler" "getattr_signal_namespace s T = Some d" "n \<in> keys d"
  shows "n \<in> (\<lambda>a. name (as_schema a)) ` set (schemata args T s)"
proof -
  have "merge_dict_class_vars s T Signaler
          = merge_loop s Signaler (mro_tail s T) (dict_merge [] d)"
    using assms(1,2) by (simp add: merge_dict_class_vars_def mro_def)
  moreover have "n \<in> keys (dict_merge [] d)" using assms(3) by (simp add: keys_dict_merge)
  ultimately have "n \<in> keys (merge_dict_class_vars s T Signaler)"
    using keys_merge_loop [of "dict_merge [] d" s Signaler "mro_tail s T"] by auto
  then have "n \<in> (\<lambda>a. name (as_schema a)) ` set (inherited_schemata s T)"
    by (force simp: inherited_schemata_def keys_def image_iff)
  then show ?thesis using assms(2) by (auto simp: schemata_def)
qed

lemma ex_sA_getattr: "getattr_signal_namespace ex_sA ex_A = Some [(''created'', 0)]"
  by (simp add: getattr_own ex_sA_fields)

lemma ex_sA_issubclass: "issubclass ex_sA ex_A Signaler"
  by (simp add: issubclass_def mro_def ex_sA_fields)

lemma ex_sA1_eq: "ex_sA1 = signal_connect 0 (User ex_h) ex_sA"
  using connect_class_signal_declared [OF _ ex_sA_issubclass ex_sA_getattr, of "''created''" 0 ex_h]
  by (simp add: ex_sA1_def ex_sA_fields)

lemma ex_sA1_fields:
  "mro_tail ex_sA1 = (\<lambda>c. [])(ex_A := [Signaler])"
  "signal_namespace ex_sA1 = [ex_A \<mapsto> [(''created'', 0)]]"
  "signal_classes ex_sA1 = {ex_A}"
  "next_sid ex_sA1 = 1"
  "log ex_sA1 = []"
  "user_receivers ex_sA1 0 = {ex_h}"
  "handlers_of ex_sA1 nm = []"
  by (simp_all add: ex_sA1_eq signal_connect_frame ex_sA_fields user_receivers_signal_connect
      ex_sA_users ex_sA_handlers)

lemma wf_ex_sA1: "wf ex_sA1"
  by (simp add: ex_sA1_eq wf_signal_connect wf_ex_sA)

lemma ex_sA1_schemata:
  "schemata args ex_A ex_sA1 = args @ [SchemaArg \<lparr> name = ''created'', cascade = False \<rparr>]"
  by (simp add: lookup_defs ex_sA1_fields is_cascading_users ex_h_def)

lemma ex_sA2_fields:
  "signal_namespace ex_sA2 = [ex_A \<mapsto> [(''created'', 1)]]"
  "log ex_sA2 = []"
  "user_receivers ex_sA2 0 = {ex_h}"
  by (simp_all add: ex_sA2_def signals_decorator_frame signals_decorator_namespace
      ex_sA1_schemata declare_schema_table declare_schema_next_sid ex_sA1_fields
      signals_decorator_old_users ex_created_def)






text \<open>A declaration registers no handler of a caller.\<close>

lemma users_subset_declare_schema:
  assumes "declare_schema c a (ns, s) = (ns', s')"
  shows "user_receivers s' i \<subseteq> user_receivers s i"
proof -
  obtain j ns1 s1 where nsig: "namespace_signal (name (as_schema a)) ns s = (j, ns1, s1)"
    by (metis prod_cases3)
  have res: "s' = make_all_cascade c (name (as_schema a)) j
            (if cascade (as_schema a) then make_cascade c (name (as_schema a)) j s1 else s1)"
    using declare_schema_eq [OF nsig, of c] assms by simp
  have "user_receivers s1 i \<subseteq> user_receivers s i"
    using nsig by (auto simp: namespace_signal_def user_receivers_def split: option.splits if_splits)
  then show ?thesis by (simp add: res)
qed

lemma users_subset_declare_loop:
  assumes "declare_loop c as (ns, s) = (ns', s')"
  shows "user_receivers s' i \<subseteq> user_receivers s i"
  using assms
proof (induction as arbitrary: ns s)
  case Nil
  then show ?case by simp
next
  case (Cons a as)
  obtain ns1 s1 where st: "declare_schema c a (ns, s) = (ns1, s1)"
    by (metis surj_pair)
  have rest: "declare_loop c as (ns1, s1) = (ns', s')"
    using Cons.prems st by simp
  show ?case using Cons.IH [OF rest] users_subset_declare_schema [OF st, of i] by blast
qed

lemma users_subset_signals_decorator:
  "user_receivers (signals_decorator args c s) i \<subseteq> user_receivers s i"
proof -
  let ?s0 = "s\<lparr> signal_classes := insert c (signal_classes s) \<rparr>"
  obtain ns' s1 where
    l: "declare_loop c (schemata args c s) ([], ?s0) = (ns', s1)"
    and r: "signals_decorator args c s = s1\<lparr> signal_namespace := (signal_namespace s1)(c \<mapsto> ns') \<rparr>"
    by (rule signals_decorator_unfold)
  have "user_receivers s1 i \<subseteq> user_receivers ?s0 i" using users_subset_declare_loop [OF l] .
  then show ?thesis by (simp add: r user_receivers_def)
qed

lemma init_class_signals_quiet:
  "log (init_class_signals T s) = log s"
  "user_receivers (init_class_signals T s) i \<subseteq> user_receivers s i"
  by (simp_all add: init_class_signals_def signals_decorator_frame users_subset_signals_decorator)

lemma init_class_signals_table:
  assumes "wf s"
  shows "\<exists>ns. signal_namespace (init_class_signals T s) T = Some ns"
proof (cases "T \<in> signal_classes s")
  case True
  then show ?thesis using assms by (auto simp: init_class_signals_def wf_def)
next
  case False
  then show ?thesis using signals_decorator_table [of "[]" T s]
    by (auto simp: init_class_signals_def)
qed

lemma issubclass_init_class_signals [simp]:
  "issubclass (init_class_signals T s) c lim = issubclass s c lim"
  by (simp add: init_class_signals_def issubclass_def mro_def signals_decorator_frame)

lemma wf_init_class_signals: "wf s \<Longrightarrow> wf (init_class_signals T s)"
  by (simp add: init_class_signals_def wf_signals_decorator)







text \<open>The lookup returns the table of the first class of the list that has one.\<close>

lemma lookup_attr_Some:
  "(lookup_attr d ps = Some v) =
     (\<exists>pre p post. ps = pre @ p # post \<and> (\<forall>q\<in>set pre. d q = None) \<and> d p = Some v)"
proof (induction ps)
  case Nil
  then show ?case by simp
next
  case (Cons a ps)
  show ?case
  proof (cases "d a")
    case None
    have "(\<exists>pre p post. a # ps = pre @ p # post \<and> (\<forall>q\<in>set pre. d q = None) \<and> d p = Some v)
        = (\<exists>pre p post. ps = pre @ p # post \<and> (\<forall>q\<in>set pre. d q = None) \<and> d p = Some v)"
      (is "?L = ?R")
    proof
      assume ?L
      then obtain pre p post where a: "a # ps = pre @ p # post" "\<forall>q\<in>set pre. d q = None"
        "d p = Some v" by blast
      then obtain pre' where "pre = a # pre'" using None by (cases pre) auto
      then show ?R using a by auto
    next
      assume ?R
      then obtain pre p post where a: "ps = pre @ p # post" "\<forall>q\<in>set pre. d q = None"
        "d p = Some v" by blast
      then have "a # ps = (a # pre) @ p # post" "\<forall>q\<in>set (a # pre). d q = None"
        using None by auto
      then show ?L using a(3) by blast
    qed
    then show ?thesis using None Cons.IH by simp
  next
    case (Some w)
    have "(\<exists>pre p post. a # ps = pre @ p # post \<and> (\<forall>q\<in>set pre. d q = None) \<and> d p = Some v)
        = (w = v)" (is "?L = _")
    proof
      assume ?L
      then obtain pre p post where a: "a # ps = pre @ p # post" "\<forall>q\<in>set pre. d q = None"
        "d p = Some v" by blast
      then have "pre = []" using Some by (cases pre) auto
      then show "w = v" using a Some by auto
    next
      assume "w = v"
      then have "a # ps = [] @ a # ps \<and> (\<forall>q\<in>set []. d q = None) \<and> d a = Some v"
        using Some by simp
      then show ?L by blast
    qed
    then show ?thesis using Some by simp
  qed
qed

lemma wf_getattr:
  assumes "wf s" "getattr_signal_namespace s c = Some d"
  shows "distinct (map fst d)" "\<forall>e\<in>set d. snd e < next_sid s"
proof -
  obtain p where "signal_namespace s p = Some d"
    using assms(2) unfolding getattr_signal_namespace_def lookup_attr_Some by blast
  then show "distinct (map fst d)" "\<forall>e\<in>set d. snd e < next_sid s"
    using assms(1) unfolding wf_def by blast+
qed

lemma keys_map_of: "n \<in> keys ns \<Longrightarrow> \<exists>i. map_of ns n = Some i"
  by (cases "map_of ns n") (auto simp: keys_def map_of_eq_None_iff)

text \<open>The merge: every visited table is laid over the ones visited before it.\<close>

lemma merge_loop_append:
  "merge_loop s lim (xs @ ys) var = merge_loop s lim ys (merge_loop s lim xs var)"
  by (induction xs arbitrary: var) (auto split: option.splits)

lemma merge_loop_skip:
  "\<forall>p\<in>set ps. issubclass s p lim \<longrightarrow>
      (\<forall>d. getattr_signal_namespace s p = Some d \<longrightarrow> n \<notin> keys d) \<Longrightarrow>
   map_of (merge_loop s lim ps var) n = map_of var n"
  by (induction ps arbitrary: var) (auto simp: map_of_dict_merge_notin split: option.splits)

lemma merge_loop_last:
  assumes "issubclass s p lim" "getattr_signal_namespace s p = Some d"
    and "distinct (map fst d)" "map_of d n = Some v"
    and "\<forall>q\<in>set post. issubclass s q lim \<longrightarrow>
           (\<forall>d'. getattr_signal_namespace s q = Some d' \<longrightarrow> n \<notin> keys d')"
  shows "map_of (merge_loop s lim (pre @ p # post) var) n = Some v"
proof -
  let ?var = "merge_loop s lim pre var"
  have "merge_loop s lim (pre @ p # post) var = merge_loop s lim post (dict_merge ?var d)"
    using assms(1,2) by (simp add: merge_loop_append)
  moreover have "map_of (dict_merge ?var d) n = Some v"
    using assms(3,4) by (rule map_of_dict_merge_in)
  ultimately show ?thesis using merge_loop_skip [OF assms(5)] by simp
qed

lemma keys_merge_loop_eq:
  "keys (merge_loop s lim ps var) =
     keys var \<union> (\<Union>p\<in>{p \<in> set ps. issubclass s p lim}.
                    case getattr_signal_namespace s p of None \<Rightarrow> {} | Some d \<Rightarrow> keys d)"
  by (induction ps arbitrary: var) (auto simp: keys_dict_merge split: option.splits)

lemma ex_D_classes [simp]:
  "ex_D \<noteq> ex_A" "ex_A \<noteq> ex_D" "ex_D \<noteq> ex_B" "ex_B \<noteq> ex_D" "ex_D \<noteq> Signaler" "Signaler \<noteq> ex_D"
  by (simp_all add: ex_A_def ex_B_def ex_D_def Signaler_def)

lemma wf_ex_sAb: "wf ex_sAb"
  by (simp add: ex_sAb_def wf_def_subclass wf_ex_sA)

lemma wf_ex_sABd: "wf ex_sABd"
  by (simp add: ex_sABd_def ex_sAB_def wf_def_subclass wf_signals_decorator wf_ex_sAb)

lemma ex_sABd_fields:
  "mro_tail ex_sABd = (\<lambda>c. [])(ex_A := [Signaler], ex_B := [ex_A, Signaler],
      ex_D := [ex_B, ex_A, Signaler])"
  "signal_namespace ex_sABd = [ex_A \<mapsto> [(''created'', 0)], ex_B \<mapsto> [(''created'', 1)]]"
  "signal_classes ex_sABd = {ex_B, ex_A}"
  by (simp_all add: ex_sABd_def def_subclass_def ex_sAB_fields mro_def)

text \<open>What one emission on a channel appends to the log.\<close>

lemma handlers_of_log [simp]: "handlers_of (s\<lparr> log := l \<rparr>) = handlers_of s"
  by (simp add: handlers_of_def fun_eq_iff)

lemma deliveries_log [simp]: "deliveries (s\<lparr> log := l \<rparr>) = deliveries s"
  by (simp add: deliveries_def fun_eq_iff cong: receiver.case_cong)

lemma deliveries_simps [simp]:
  "deliveries s [] x kw = []"
  "deliveries s (User f # rs) x kw = (f, x, kw) # deliveries s rs x kw"
  "deliveries s (Padre c # rs) x kw
     = map (\<lambda>h. (h, x, kw)) (handlers_of s (target c)) @ deliveries s rs x kw"
  by (simp_all add: deliveries_def)

lemma forwards_simps [simp]:
  "forwards [] = []"
  "forwards (User f # rs) = forwards rs"
  "forwards (Padre c # rs) = target c # forwards rs"
  "forwards (rs @ rs') = forwards rs @ forwards rs'"
  by (simp_all add: forwards_def)

lemma invoke_deliveries:
  assumes "''sender'' \<notin> keys kw" "\<forall>m\<in>set (forwards [r]). base_signals s m \<noteq> None"
  shows "invoke r x kw s = (None, s\<lparr> log := log s @ deliveries s [r] x kw \<rparr>)"
proof (cases r)
  case (User f)
  then show ?thesis by simp
next
  case (Padre c)
  then obtain hs where b: "base_signals s (target c) = Some hs" using assms(2) by auto
  have "call_padre (target c) x kw s = (None, s\<lparr> log := log s @ map (\<lambda>h. (h, x, kw)) hs \<rparr>)"
    using assms(1) b by (rule call_padre_ok)
  then show ?thesis using Padre b by (cases c) (simp_all add: target_def handlers_of_def)
qed

lemma send_loop_deliveries:
  assumes "''sender'' \<notin> keys kw"
  shows "\<forall>m\<in>set (forwards rs). base_signals s m \<noteq> None \<Longrightarrow>
         send_loop rs x kw s = (None, s\<lparr> log := log s @ deliveries s rs x kw \<rparr>)"
proof (induction rs arbitrary: s)
  case Nil
  then show ?case by simp
next
  case (Cons r rs)
  let ?s1 = "s\<lparr> log := log s @ deliveries s [r] x kw \<rparr>"
  have one: "\<forall>m\<in>set (forwards [r]). base_signals s m \<noteq> None"
    using Cons.prems by (cases r) auto
  have i: "invoke r x kw s = (None, ?s1)" using assms one by (rule invoke_deliveries)
  have rest: "\<forall>m\<in>set (forwards rs). base_signals ?s1 m \<noteq> None"
    using Cons.prems by (cases r) auto
  have "send_loop rs x kw ?s1 = (None, ?s1\<lparr> log := log ?s1 @ deliveries ?s1 rs x kw \<rparr>)"
    using rest by (rule Cons.IH)
  then show ?case using i by (cases r) simp_all
qed


text \<open>A caller's type-level emission, in terms of the channel.\<close>

lemma call_send_cls_signal_deliveries:
  assumes "issubclass s T Signaler" "signals s T = Inr ns" "map_of ns (name e) = Some i"
    and "\<forall>m\<in>set (forwards (receivers s i)). base_signals s m \<noteq> None"
    and "''sender'' \<notin> keys kw" "''signal'' \<notin> keys kw" "''cls'' \<notin> keys kw"
    and "length sender \<le> 1"
  shows "call_send_cls_signal T e sender True kw s =
           (None, s\<lparr> log := log s @ deliveries s (receivers s i)
                      (default_sender (Cls T) sender) ((''signal'', Sch e) # kw) \<rparr>)"
proof -
  let ?kw = "(''signal'', Sch e) # kw"
  let ?x = "default_sender (Cls T) sender"
  let ?sender1 = "if length sender = 0 then [Cls T] else sender"
  have ks: "''sender'' \<notin> keys ?kw" using assms(5) by (simp add: keys_def)
  have k: "name e \<in> keys ns" using assms(3) by (rule map_of_in_keys)
  have s1: "?sender1 = [?x]"
    using assms(8) by (cases sender) (auto simp: default_sender_def)
  have "call_send_cls_signal T e sender True kw s = emit T e ?sender1 kw s"
    using assms(1,2,6,7) k by (simp add: call_send_cls_signal_def send_cls_signal_def Let_def)
  also have "\<dots> = signal_send i [?x] ?kw s"
    unfolding s1 using assms(2,3,6) by (simp add: emit_def)
  also have "\<dots> = send_loop (receivers s i) ?x ?kw s" by (simp add: signal_send_def)
  also have "\<dots> = (None, s\<lparr> log := log s @ deliveries s (receivers s i) ?x ?kw \<rparr>)"
    using ks assms(4) by (rule send_loop_deliveries)
  finally show ?thesis .
qed


lemma connected_to_iff:
  "connected_to s T n h =
     (\<exists>ns i. signals s T = Inr ns \<and> map_of ns n = Some i \<and> User h \<in> set (receivers s i))"
  by (auto simp: connected_to_def handler_on_def split: sum.splits option.splits)

text \<open>Connecting handlers leaves the forwarding of every channel as it is.\<close>

lemma signals_connect_base_signal [simp]:
  "signals (connect_base_signal nm f s) = signals s"
  by (simp add: signals_def fun_eq_iff)

lemma signals_signal_connect [simp]:
  "signals (signal_connect i r s) = signals s"
  by (simp add: signals_def fun_eq_iff)










lemma ex_k_h [simp]: "ex_k \<noteq> ex_h" "ex_h \<noteq> ex_k"
  by (simp_all add: ex_k_def ex_h_def)

lemma connected_to_users:
  "signals s T = Inr ns \<Longrightarrow> map_of ns n = Some i \<Longrightarrow>
   connected_to s T n h = (h \<in> user_receivers s i)"
  by (simp add: connected_to_def handler_on_def user_receivers_def)






text \<open>Every closure on a channel sends to a base signal that exists.\<close>

lemma forwards_removeAll: "set (forwards (removeAll r rs)) \<subseteq> set (forwards rs)"
  by (induction rs) (auto simp: forwards_def split: receiver.splits)

lemma targets_ok_setattr: "targets_ok s \<Longrightarrow> targets_ok (setattr c a f s)"
proof -
  assume a: "targets_ok s"
  show ?thesis
  proof (cases "cascade_attrs s (c, a)")
    case None
    then show ?thesis using a by (simp add: setattr_def targets_ok_def)
  next
    case (Some old)
    have "base_signals s m \<noteq> None"
      if "m \<in> set (forwards (removeAll (Padre old) (receivers s i)))" for i m
    proof -
      have "m \<in> set (forwards (receivers s i))"
        using that forwards_removeAll [of "Padre old" "receivers s i"] by blast
      then show ?thesis using a unfolding targets_ok_def by blast
    qed
    then show ?thesis using a Some by (simp add: setattr_def targets_ok_def)
  qed
qed

lemma targets_ok_connect_user: "targets_ok s \<Longrightarrow> targets_ok (signal_connect i (User f) s)"
  by (auto simp: targets_ok_def signal_connect_def)

lemma targets_ok_connect_padre:
  "targets_ok s \<Longrightarrow> base_signals s (target c) \<noteq> None \<Longrightarrow>
   targets_ok (signal_connect i (Padre c) s)"
  by (auto simp: targets_ok_def signal_connect_def)

lemma targets_ok_next_fid [simp]: "targets_ok (s\<lparr> next_fid := k \<rparr>) = targets_ok s"
  by (simp add: targets_ok_def)

lemma targets_ok_signal_classes [simp]: "targets_ok (s\<lparr> signal_classes := X \<rparr>) = targets_ok s"
  by (simp add: targets_ok_def)

lemma targets_ok_signal_namespace [simp]:
  "targets_ok (s\<lparr> signal_namespace := X \<rparr>) = targets_ok s"
  by (simp add: targets_ok_def)

lemma base_signals_setattr [simp]: "base_signals (setattr c a f s) = base_signals s"
  by (simp add: setattr_def split: option.splits)

lemma targets_ok_make_all_cascade:
  assumes "targets_ok s"
  shows "targets_ok (make_all_cascade c nm i s)"
proof -
  let ?g = "AllCascadePadre (next_fid s) EVENT_TRIGGERED"
  let ?s1 = "setattr c (all_cascade_attr nm) ?g (s\<lparr> next_fid := Suc (next_fid s) \<rparr>)"
  have a: "targets_ok ?s1" using assms by (simp add: targets_ok_setattr)
  have b: "base_signals ?s1 (target ?g) \<noteq> None"
    using assms by (simp add: targets_ok_def target_def)
  show ?thesis
    using targets_ok_connect_padre [OF a b] by (simp add: make_all_cascade_def Let_def)
qed

lemma targets_ok_add_base:
  "targets_ok s \<Longrightarrow> targets_ok (s\<lparr> base_signals := (base_signals s)(nm \<mapsto> hs) \<rparr>)"
  by (simp add: targets_ok_def)

lemma targets_ok_make_cascade:
  assumes "targets_ok s"
  shows "targets_ok (make_cascade c nm i s)"
proof -
  let ?s1 = "if base_signals s nm = None
             then s\<lparr> base_signals := (base_signals s)(nm \<mapsto> []) \<rparr> else s"
  let ?f = "CascadePadre (next_fid ?s1) nm"
  let ?s2 = "setattr c (cascade_attr nm) ?f (?s1\<lparr> next_fid := Suc (next_fid ?s1) \<rparr>)"
  have a1: "targets_ok ?s1" using assms by (simp add: targets_ok_add_base)
  have b1: "base_signals ?s1 nm \<noteq> None" by simp
  have a: "targets_ok ?s2" using a1 by (simp add: targets_ok_setattr)
  have b: "base_signals ?s2 (target ?f) \<noteq> None" using b1 by (simp add: target_def)
  show ?thesis
    using targets_ok_connect_padre [OF a b] by (simp add: make_cascade_def Let_def)
qed

lemma targets_ok_declare_schema:
  assumes "targets_ok s" "declare_schema c a (ns, s) = (ns', s')"
  shows "targets_ok s'"
proof -
  obtain j ns1 s1 where nsig: "namespace_signal (name (as_schema a)) ns s = (j, ns1, s1)"
    by (metis prod_cases3)
  have res: "s' = make_all_cascade c (name (as_schema a)) j
            (if cascade (as_schema a) then make_cascade c (name (as_schema a)) j s1 else s1)"
    using declare_schema_eq [OF nsig, of c] assms(2) by simp
  have "targets_ok s1"
    using nsig assms(1)
    by (auto simp: namespace_signal_def targets_ok_def split: option.splits if_splits)
  then show ?thesis unfolding res
    by (simp add: targets_ok_make_all_cascade targets_ok_make_cascade)
qed

lemma targets_ok_declare_loop:
  assumes "targets_ok s" "declare_loop c as (ns, s) = (ns', s')"
  shows "targets_ok s'"
  using assms
proof (induction as arbitrary: ns s)
  case Nil
  then show ?case by simp
next
  case (Cons a as)
  obtain ns1 s1 where st: "declare_schema c a (ns, s) = (ns1, s1)"
    by (metis surj_pair)
  have rest: "declare_loop c as (ns1, s1) = (ns', s')"
    using Cons.prems(2) st by simp
  have "targets_ok s1" using Cons.prems(1) st by (rule targets_ok_declare_schema)
  then show ?case using rest by (rule Cons.IH)
qed

lemma targets_ok_signals_decorator:
  assumes "targets_ok s"
  shows "targets_ok (signals_decorator args c s)"
proof -
  let ?s0 = "s\<lparr> signal_classes := insert c (signal_classes s) \<rparr>"
  obtain ns' s1 where
    l: "declare_loop c (schemata args c s) ([], ?s0) = (ns', s1)"
    and r: "signals_decorator args c s = s1\<lparr> signal_namespace := (signal_namespace s1)(c \<mapsto> ns') \<rparr>"
    by (rule signals_decorator_unfold)
  have "targets_ok ?s0" using assms by simp
  then have "targets_ok s1" using l by (rule targets_ok_declare_loop)
  then show ?thesis by (simp add: r)
qed

lemma targets_ok_init_class_signals: "targets_ok s \<Longrightarrow> targets_ok (init_class_signals T s)"
  by (simp add: init_class_signals_def targets_ok_signals_decorator)

lemma targets_ok_init_state: "targets_ok init_state"
  by (simp add: targets_ok_def init_state_def)

lemma targets_ok_def_subclass [simp]: "targets_ok (def_subclass c b s) = targets_ok s"
  by (simp add: targets_ok_def def_subclass_frame)

lemma targets_ok_connect_base_signal:
  "targets_ok s \<Longrightarrow> targets_ok (connect_base_signal nm f s)"
  by (simp add: targets_ok_def connect_base_signal_frame connect_base_signal_base)

text \<open>An emission on a class calls every handler on the channel that the class sees.\<close>

lemma deliveries_user:
  "User h \<in> set rs \<Longrightarrow> (h, x, kw) \<in> set (deliveries s rs x kw)"
  by (induction rs) (auto simp: deliveries_def)

lemma emission_reaches_user:
  assumes "issubclass s T Signaler" "targets_ok s" "connected_to s T (name e) h"
    and "''sender'' \<notin> keys kw" "''signal'' \<notin> keys kw" "''cls'' \<notin> keys kw"
    and "length sender \<le> 1"
  shows "\<exists>s'. call_send_cls_signal T e sender True kw s = (None, s') \<and>
           (h, default_sender (Cls T) sender, (''signal'', Sch e) # kw) \<in> set (new_log s s')"
proof -
  obtain ns i where c: "signals s T = Inr ns" "map_of ns (name e) = Some i"
    "User h \<in> set (receivers s i)"
    using assms(3) unfolding connected_to_iff by blast
  have ex: "\<forall>m\<in>set (forwards (receivers s i)). base_signals s m \<noteq> None"
    using assms(2) by (simp add: targets_ok_def)
  have send: "call_send_cls_signal T e sender True kw s =
      (None, s\<lparr> log := log s @ deliveries s (receivers s i)
                   (default_sender (Cls T) sender) ((''signal'', Sch e) # kw) \<rparr>)"
    using assms(1) c(1,2) ex assms(4,5,6,7) by (rule call_send_cls_signal_deliveries)
  show ?thesis unfolding send using deliveries_user [OF c(3)] by simp
qed

lemma handler_on_iff:
  "handler_on s ns n h = (\<exists>i. map_of ns n = Some i \<and> h \<in> user_receivers s i)"
  by (simp add: handler_on_def user_receivers_def split: option.splits)

lemma registered_iff:
  "registered s T n h =
     (T \<in> signal_classes s \<and>
      (\<exists>ns i. signal_namespace s T = Some ns \<and> map_of ns n = Some i \<and> h \<in> user_receivers s i))"
  by (auto simp: registered_def handler_on_iff split: option.splits)

lemma registered_offers: "registered s T n h \<Longrightarrow> offers s T n"
  by (auto simp: registered_iff offers_def signals_def getattr_own intro: map_of_in_keys)

lemma registered_connected: "registered s T n h \<Longrightarrow> connected_to s T n h"
  by (auto simp: registered_iff connected_to_def handler_on_iff signals_def getattr_own)

text \<open>Connecting to a class keeps the registrations there are.\<close>

lemma registered_signal_connect:
  "registered s T n h \<Longrightarrow> registered (signal_connect i (User f) s) T n h"
  by (auto simp: registered_iff signal_connect_frame user_receivers_signal_connect)

lemma registered_init_class_signals:
  assumes "wf s" "registered s T' n h"
  shows "registered (init_class_signals T s) T' n h"
proof (cases "T \<in> signal_classes s")
  case True
  then show ?thesis using assms(2) by (simp add: init_class_signals_def)
next
  case False
  obtain ns i where r: "T' \<in> signal_classes s" "signal_namespace s T' = Some ns"
    "map_of ns n = Some i" "h \<in> user_receivers s i"
    using assms(2) by (auto simp: registered_iff)
  have ne: "T' \<noteq> T" using r(1) False by auto
  have "(n, i) \<in> set ns" using r(3) by (rule map_of_SomeD)
  moreover have "\<forall>e\<in>set ns. snd e < next_sid s" using assms(1) r(2) unfolding wf_def by blast
  ultimately have "i < next_sid s" by force
  then have "user_receivers (signals_decorator [] T s) i = user_receivers s i"
    by (rule signals_decorator_old_users)
  then show ?thesis using False r ne
    by (auto simp: registered_iff init_class_signals_def signals_decorator_frame)
qed

text \<open>Connecting to a class that can emit and sees the name in its table.\<close>

lemma connect_class_signal_ok:
  assumes "wf s" "issubclass s T Signaler"
    and "getattr_signal_namespace s T = Some ns" "n \<in> keys ns"
  shows "\<exists>ns1 i. signal_namespace (init_class_signals T s) T = Some ns1 \<and>
           map_of ns1 n = Some i \<and>
           connect_class_signal T n h s = (None, signal_connect i (User h) (init_class_signals T s))"
proof -
  let ?s1 = "init_class_signals T s"
  obtain ns1 where own: "signal_namespace ?s1 T = Some ns1"
    using init_class_signals_table [OF assms(1)] by blast
  have "n \<in> keys ns1"
  proof (cases "T \<in> signal_classes s")
    case True
    then have e: "?s1 = s" by (simp add: init_class_signals_def)
    have "getattr_signal_namespace s T = Some ns1" using own unfolding e by (rule getattr_own)
    then have "ns1 = ns" using assms(3) by simp
    then show ?thesis using assms(4) by simp
  next
    case False
    then have e: "?s1 = signals_decorator [] T s" by (simp add: init_class_signals_def)
    obtain ns' where t: "signal_namespace (signals_decorator [] T s) T = Some ns'"
      "keys ns' = (\<lambda>a. name (as_schema a)) ` set (schemata [] T s)"
      using signals_decorator_table [of "[]" T s] by blast
    have "ns1 = ns'" using own t(1) unfolding e by simp
    then show ?thesis using t(2) schemata_inherits [OF assms(2,3,4), of "[]"] by blast
  qed
  then have "\<exists>i. map_of ns1 n = Some i" by (rule keys_map_of)
  then obtain i where i: "map_of ns1 n = Some i" by (rule exE)
  have g: "signals ?s1 T = Inr ns1" by (simp add: signals_def getattr_own [OF own])
  have sub: "issubclass ?s1 T Signaler" using assms(2) by simp
  have "connect_class_signal T n h s = (None, signal_connect i (User h) ?s1)"
    unfolding connect_class_signal_def Let_def using sub g i by simp
  then show ?thesis using own i by blast
qed

lemma init_class_signals_frame:
  "mro_tail (init_class_signals T s) = mro_tail s"
  "subclasses (init_class_signals T s) = subclasses s"
  "c \<noteq> T \<Longrightarrow> signal_namespace (init_class_signals T s) c = signal_namespace s c"
  "T \<in> signal_classes (init_class_signals T s)"
  "signal_classes (init_class_signals T s) = insert T (signal_classes s)"
  by (auto simp: init_class_signals_def signals_decorator_frame)

lemma connect_step:
  assumes "wf s" "issubclass s T Signaler"
    and "getattr_signal_namespace s T = Some ns" "n \<in> keys ns"
  obtains s' where "connect_class_signal T n h s = (None, s')" "wf s'" "registered s' T n h"
    "mro_tail s' = mro_tail s" "subclasses s' = subclasses s"
    "\<forall>c. c \<noteq> T \<longrightarrow> signal_namespace s' c = signal_namespace s c"
    "\<forall>T' h'. registered s T' n h' \<longrightarrow> registered s' T' n h'"
    "signal_classes s' = insert T (signal_classes s)" "targets_ok s \<longrightarrow> targets_ok s'"
    "log s' = log s"
proof -
  let ?s1 = "init_class_signals T s"
  obtain ns1 i where c: "signal_namespace ?s1 T = Some ns1" "map_of ns1 n = Some i"
    "connect_class_signal T n h s = (None, signal_connect i (User h) ?s1)"
    using connect_class_signal_ok [OF assms] by blast
  let ?s' = "signal_connect i (User h) ?s1"
  have w: "wf ?s'" using assms(1) by (simp add: wf_signal_connect wf_init_class_signals)
  have r: "registered ?s' T n h"
    using c(1,2) by (auto simp: registered_iff signal_connect_frame init_class_signals_frame
        user_receivers_signal_connect)
  have f: "mro_tail ?s' = mro_tail s" "subclasses ?s' = subclasses s"
    "\<forall>c. c \<noteq> T \<longrightarrow> signal_namespace ?s' c = signal_namespace s c"
    by (simp_all add: signal_connect_frame init_class_signals_frame)
  have k: "\<forall>T' h'. registered s T' n h' \<longrightarrow> registered ?s' T' n h'"
    using registered_signal_connect registered_init_class_signals [OF assms(1)] by blast
  have sc: "signal_classes ?s' = insert T (signal_classes s)"
    by (simp add: signal_connect_frame init_class_signals_frame)
  have tg: "targets_ok s \<longrightarrow> targets_ok ?s'"
    by (simp add: targets_ok_connect_user targets_ok_init_class_signals)
  have lg: "log ?s' = log s"
    by (simp add: signal_connect_frame init_class_signals_quiet)
  show ?thesis using that [OF c(3) w r f k sc tg lg] .
qed

lemma offers_iff:
  "offers s T n = (\<exists>v. getattr_signal_namespace s T = Some v \<and> n \<in> keys v)"
  by (cases "getattr_signal_namespace s T") (simp_all add: offers_def signals_def)

lemma registered_own:
  "registered s T n h \<Longrightarrow>
   \<exists>ns i. signal_namespace s T = Some ns \<and> map_of ns n = Some i \<and> h \<in> user_receivers s i"
  by (simp add: registered_iff)

text \<open>A class below a class that holds the handler sees the name.\<close>

lemma sub_offers:
  assumes "mro_tail s T = mro s A" "registered s A n h"
    and "\<forall>v. signal_namespace s T = Some v \<longrightarrow> n \<in> keys v"
  shows "offers s T n"
proof (cases "signal_namespace s T")
  case None
  have "offers s A n" using assms(2) by (rule registered_offers)
  then obtain v where v: "getattr_signal_namespace s A = Some v" "n \<in> keys v"
    unfolding offers_iff by blast
  have "getattr_signal_namespace s T = lookup_attr (signal_namespace s) (mro s A)"
    using getattr_inherit [OF None] assms(1) by simp
  then have "getattr_signal_namespace s T = Some v"
    using v(1) by (simp add: getattr_signal_namespace_def)
  then show ?thesis using v(2) unfolding offers_iff by blast
next
  case (Some v)
  then have "getattr_signal_namespace s T = Some v" by (rule getattr_own)
  then show ?thesis using assms(3) Some unfolding offers_iff by blast
qed

lemma connect_step_offers:
  assumes "wf s" "issubclass s T Signaler" "offers s T n"
  obtains s' where "connect_class_signal T n h s = (None, s')" "wf s'" "registered s' T n h"
    "mro_tail s' = mro_tail s" "subclasses s' = subclasses s"
    "\<forall>c. c \<noteq> T \<longrightarrow> signal_namespace s' c = signal_namespace s c"
    "\<forall>T' h'. registered s T' n h' \<longrightarrow> registered s' T' n h'"
    "signal_classes s' = insert T (signal_classes s)" "targets_ok s \<longrightarrow> targets_ok s'"
    "log s' = log s"
proof -
  obtain v where v: "getattr_signal_namespace s T = Some v" "n \<in> keys v"
    using assms(3) unfolding offers_iff by blast
  show ?thesis using connect_step [OF assms(1,2) v, of h] that by blast
qed

lemma mro_cong: "mro_tail s' = mro_tail s \<Longrightarrow> mro s' = mro s"
  by (simp add: mro_def fun_eq_iff)

lemma issubclass_cong: "mro_tail s' = mro_tail s \<Longrightarrow> issubclass s' = issubclass s"
  by (simp add: issubclass_def mro_def fun_eq_iff)

text \<open>A class defined below a class that holds the handler.\<close>

lemma later_subclass_sees:
  assumes "registered s B n h" "signal_namespace s D = None"
  shows "connected_to (def_subclass D B s) D n h"
proof -
  let ?sD = "def_subclass D B s"
  obtain nsB i where b: "signal_namespace s B = Some nsB" "map_of nsB n = Some i"
    "h \<in> user_receivers s i"
    using registered_own [OF assms(1)] by blast
  have ne: "D \<noteq> B" using b(1) assms(2) by auto
  have "getattr_signal_namespace ?sD D = Some nsB"
    using b(1) assms(2) ne
    by (simp add: getattr_signal_namespace_def mro_def def_subclass_frame)
  then have sg: "signals ?sD D = Inr nsB" by (simp add: signals_def)
  show ?thesis unfolding connected_to_users [OF sg b(2)] using b(3) by simp
qed

lemma later_subclass_issubclass:
  "issubclass s B Signaler \<Longrightarrow> issubclass (def_subclass D B s) D Signaler"
  by (simp add: issubclass_def mro_def def_subclass_frame)

lemma later_subclass_declared:
  assumes "registered s B n h" "signal_namespace s D = None" "issubclass s B Signaler"
  shows "offers (signals_decorator args D (def_subclass D B s)) D n \<and>
         \<not> connected_to (signals_decorator args D (def_subclass D B s)) D n h"
proof -
  let ?sD = "def_subclass D B s"
  let ?s' = "signals_decorator args D ?sD"
  have "offers ?sD D n"
    using later_subclass_sees [OF assms(1,2)]
    by (auto simp: connected_to_iff offers_def intro: map_of_in_keys)
  then obtain v where v: "getattr_signal_namespace ?sD D = Some v" "n \<in> keys v"
    unfolding offers_iff by blast
  have i: "issubclass ?sD D Signaler" using assms(3) by (rule later_subclass_issubclass)
  have nin: "n \<in> (\<lambda>a. name (as_schema a)) ` set (schemata args D ?sD)"
    using i v by (rule schemata_inherits)
  obtain ns' where t: "signal_namespace ?s' D = Some ns'"
    "keys ns' = (\<lambda>a. name (as_schema a)) ` set (schemata args D ?sD)"
    "\<forall>e\<in>set ns'. next_sid ?sD \<le> snd e \<and> snd e < next_sid ?s' \<and> user_receivers ?s' (snd e) = {}"
    using signals_decorator_table [of args D ?sD] by blast
  have k: "n \<in> keys ns'" using nin t(2) by simp
  then have "\<exists>j. map_of ns' n = Some j" by (rule keys_map_of)
  then obtain j where j: "map_of ns' n = Some j" by (rule exE)
  then have "(n, j) \<in> set ns'" by (rule map_of_SomeD)
  then have u: "user_receivers ?s' j = {}" using t(3) by auto
  have sg: "signals ?s' D = Inr ns'" by (simp add: signals_def getattr_own [OF t(1)])
  have "offers ?s' D n" using sg k by (simp add: offers_def)
  moreover have "\<not> connected_to ?s' D n h"
    unfolding connected_to_users [OF sg j] u by simp
  ultimately show ?thesis by blast
qed

lemma ex_C_classes [simp]:
  "ex_C \<noteq> ex_A" "ex_A \<noteq> ex_C" "ex_C \<noteq> ex_B" "ex_B \<noteq> ex_C" "ex_C \<noteq> Signaler" "Signaler \<noteq> ex_C"
  "ex_C \<noteq> ex_D" "ex_D \<noteq> ex_C"
  by (simp_all add: ex_A_def ex_B_def ex_C_def ex_D_def Signaler_def)

lemma ex_sAbc_fields:
  "mro_tail ex_sAbc = (\<lambda>c. [])(ex_A := [Signaler], ex_B := [ex_A, Signaler],
      ex_C := [ex_A, Signaler])"
  "signal_namespace ex_sAbc = [ex_A \<mapsto> [(''created'', 0)]]"
  "signal_classes ex_sAbc = {ex_A}"
  "log ex_sAbc = []"
  by (simp_all add: ex_sAbc_def def_subclass_frame ex_sAb_fields)

lemma ex_sAbc_subclasses:
  "subclasses ex_sAbc ex_A = [ex_B, ex_C]" "subclasses ex_sAbc ex_B = []"
  "subclasses ex_sAbc ex_C = []"
  by (simp_all add: ex_sAbc_def ex_sAb_def ex_sA_def ex_s0_def def_subclass_frame
      signals_decorator_frame init_state_def)

lemma ex_sAbc_ok: "wf ex_sAbc" "targets_ok ex_sAbc"
  by (simp_all add: ex_sAbc_def ex_sAb_def ex_sA_def ex_s0_def wf_def_subclass
      wf_signals_decorator wf_init_state targets_ok_signals_decorator targets_ok_init_state)

lemma ex_sAbc_hyps:
  "issubclass ex_sAbc ex_A Signaler" "offers ex_sAbc ex_A (name ex_created)"
  "mro_tail ex_sAbc ex_B = mro ex_sAbc ex_A" "mro_tail ex_sAbc ex_C = mro ex_sAbc ex_A"
  "ex_B \<noteq> ex_C" "ex_B \<notin> set (mro ex_sAbc ex_A)" "ex_C \<notin> set (mro ex_sAbc ex_A)"
  "\<forall>v. signal_namespace ex_sAbc ex_B = Some v \<longrightarrow> name ex_created \<in> keys v"
  "\<forall>v. signal_namespace ex_sAbc ex_C = Some v \<longrightarrow> name ex_created \<in> keys v"
  "ex_D \<notin> {ex_A, ex_B, ex_C}" "signal_namespace ex_sAbc ex_D = None"
  "ex_D \<notin> signal_classes ex_sAbc"
  by (simp_all add: issubclass_def mro_def offers_def signals_def getattr_signal_namespace_def
      keys_def ex_sAbc_fields ex_created_def)

lemma conn_frame_refl: "conn_frame X n s s"
  by (simp add: conn_frame_def)

lemma conn_frame_trans:
  "conn_frame X n s s1 \<Longrightarrow> conn_frame X n s1 s2 \<Longrightarrow> conn_frame X n s s2"
  unfolding conn_frame_def by (intro conjI) (simp, simp, simp, simp, blast, blast, blast)

text \<open>A class that gets a table with the name hides no table with the name.\<close>

lemma lookup_attr_offers:
  assumes "\<forall>c. c \<noteq> T \<longrightarrow> m' c = m c" "m' T = Some v'" "n \<in> keys v'"
  shows "lookup_attr m ps = Some v \<Longrightarrow> n \<in> keys v \<Longrightarrow>
         \<exists>w. lookup_attr m' ps = Some w \<and> n \<in> keys w"
proof (induction ps)
  case Nil
  then show ?case by simp
next
  case (Cons p ps)
  show ?case
  proof (cases "p = T")
    case True
    then show ?thesis using assms(2,3) by simp
  next
    case False
    then have e: "m' p = m p" using assms(1) by simp
    show ?thesis
    proof (cases "m p")
      case None
      then show ?thesis using Cons e by simp
    next
      case (Some u)
      then show ?thesis using Cons.prems e by simp
    qed
  qed
qed

lemma offers_kept:
  assumes "registered s' T n h" "mro_tail s' = mro_tail s"
    and "\<forall>c. c \<noteq> T \<longrightarrow> signal_namespace s' c = signal_namespace s c"
    and "offers s d n"
  shows "offers s' d n"
proof -
  obtain v' i where t: "signal_namespace s' T = Some v'" "map_of v' n = Some i"
    using registered_own [OF assms(1)] by blast
  have k: "n \<in> keys v'" using t(2) by (rule map_of_in_keys)
  obtain v where v: "lookup_attr (signal_namespace s) (mro s d) = Some v" "n \<in> keys v"
    using assms(4) unfolding offers_iff getattr_signal_namespace_def by blast
  have "\<exists>w. lookup_attr (signal_namespace s') (mro s d) = Some w \<and> n \<in> keys w"
    using assms(3) t(1) k v by (rule lookup_attr_offers)
  moreover have "mro s' = mro s" using assms(2) by (rule mro_cong)
  ultimately show ?thesis unfolding offers_iff getattr_signal_namespace_def by simp
qed

text \<open>One connection, for a class of a set whose classes all can emit and see the name.\<close>

lemma conn_step:
  assumes "conn_inv X n s" "T \<in> X"
  obtains s' where "connect_class_signal T n h s = (None, s')" "conn_inv X n s'"
    "conn_frame X n s s'" "registered s' T n h"
proof -
  have w: "wf s" and i: "issubclass s T Signaler" and o: "offers s T n"
    using assms unfolding conn_inv_def by blast+
  obtain s' where c: "connect_class_signal T n h s = (None, s')" and w': "wf s'"
    and r: "registered s' T n h" and m: "mro_tail s' = mro_tail s"
    and u: "subclasses s' = subclasses s"
    and t: "\<forall>c. c \<noteq> T \<longrightarrow> signal_namespace s' c = signal_namespace s c"
    and k: "\<forall>T' h'. registered s T' n h' \<longrightarrow> registered s' T' n h'"
    and g: "signal_classes s' = insert T (signal_classes s)"
    and x: "targets_ok s \<longrightarrow> targets_ok s'" and l: "log s' = log s"
    using w i o by (rule connect_step_offers)
  have ic: "issubclass s' = issubclass s" using m by (rule issubclass_cong)
  have "\<forall>c\<in>X. issubclass s' c Signaler \<and> offers s' c n"
  proof
    fix c assume cX: "c \<in> X"
    then have "issubclass s c Signaler" "offers s c n"
      using assms(1) unfolding conn_inv_def by blast+
    then show "issubclass s' c Signaler \<and> offers s' c n"
      using ic offers_kept [OF r m t] by simp
  qed
  then have inv: "conn_inv X n s'" using w' by (simp add: conn_inv_def)
  have t': "\<forall>c. c \<notin> X \<longrightarrow> signal_namespace s' c = signal_namespace s c"
    using t assms(2) by auto
  have g': "signal_classes s' \<subseteq> X \<union> signal_classes s" using g assms(2) by auto
  have fr: "conn_frame X n s s'"
    unfolding conn_frame_def using m u l t' g' x k by (intro conjI)
  show ?thesis using that [OF c inv fr r] .
qed

lemma conn_frame_registered:
  "conn_frame X n s s' \<Longrightarrow> registered s T n h \<Longrightarrow> registered s' T n h"
  unfolding conn_frame_def by blast

lemma conn_frame_subclasses: "conn_frame X n s s' \<Longrightarrow> subclasses s' = subclasses s"
  unfolding conn_frame_def by blast

text \<open>The two loops of \<^verbatim>\<open>connect_subclasses_fn\<close>.\<close>

lemma connect_classes_all:
  assumes "set cs \<subseteq> X"
  shows "conn_inv X n s \<Longrightarrow>
    \<exists>s'. connect_classes cs n h s = (None, s') \<and> conn_inv X n s' \<and> conn_frame X n s s' \<and>
         (\<forall>c\<in>set cs. registered s' c n h)"
  using assms
proof (induction cs arbitrary: s)
  case Nil
  then show ?case by (simp add: conn_frame_refl)
next
  case (Cons c cs)
  have cX: "c \<in> X" and rest: "set cs \<subseteq> X" using Cons.prems(2) by auto
  obtain s1 where c1: "connect_class_signal c n h s = (None, s1)" and i1: "conn_inv X n s1"
    and f1: "conn_frame X n s s1" and r1: "registered s1 c n h"
    using Cons.prems(1) cX by (rule conn_step)
  obtain s' where c2: "connect_classes cs n h s1 = (None, s')" and i2: "conn_inv X n s'"
    and f2: "conn_frame X n s1 s'" and r2: "\<forall>c\<in>set cs. registered s' c n h"
    using Cons.IH [OF i1 rest] by blast
  have run: "connect_classes (c # cs) n h s = (None, s')" using c1 c2 by simp
  have f: "conn_frame X n s s'" using f1 f2 by (rule conn_frame_trans)
  have rc: "registered s' c n h" using f2 r1 by (rule conn_frame_registered)
  have r: "\<forall>d\<in>set (c # cs). registered s' d n h" using rc r2 by simp
  show ?case using run i2 f r by blast
qed

lemma connect_and_collect_all:
  assumes "set cs \<subseteq> X"
  shows "conn_inv X n s \<Longrightarrow>
    \<exists>s' subs'. connect_and_collect cs n h subs s = (None, subs', s') \<and>
         set subs' = set subs \<union> (\<Union>c\<in>set cs. set (subclasses s c)) \<and>
         conn_inv X n s' \<and> conn_frame X n s s' \<and> (\<forall>c\<in>set cs. registered s' c n h)"
  using assms
proof (induction cs arbitrary: s subs)
  case Nil
  then show ?case by (simp add: conn_frame_refl)
next
  case (Cons c cs)
  have cX: "c \<in> X" and rest: "set cs \<subseteq> X" using Cons.prems(2) by auto
  obtain s1 where c1: "connect_class_signal c n h s = (None, s1)" and i1: "conn_inv X n s1"
    and f1: "conn_frame X n s s1" and r1: "registered s1 c n h"
    using Cons.prems(1) cX by (rule conn_step)
  let ?subs1 = "subs @ filter (\<lambda>x. x \<notin> set subs) (remdups (subclasses s1 c))"
  have u1: "subclasses s1 = subclasses s" using f1 by (rule conn_frame_subclasses)
  have set1: "set ?subs1 = set subs \<union> set (subclasses s c)" using u1 by auto
  obtain s' subs' where c2: "connect_and_collect cs n h ?subs1 s1 = (None, subs', s')"
    and st: "set subs' = set ?subs1 \<union> (\<Union>c\<in>set cs. set (subclasses s1 c))"
    and i2: "conn_inv X n s'" and f2: "conn_frame X n s1 s'"
    and r2: "\<forall>c\<in>set cs. registered s' c n h"
    using Cons.IH [OF i1 rest, of ?subs1] by blast
  have run: "connect_and_collect (c # cs) n h subs s = (None, subs', s')"
    using c1 c2 by simp
  have st': "set subs' = set subs \<union> (\<Union>c\<in>set (c # cs). set (subclasses s c))"
    unfolding st set1 u1 by auto
  have f: "conn_frame X n s s'" using f1 f2 by (rule conn_frame_trans)
  have rc: "registered s' c n h" using f2 r1 by (rule conn_frame_registered)
  have r: "\<forall>d\<in>set (c # cs). registered s' d n h" using rc r2 by simp
  show ?case using run st' i2 f r by blast
qed

text \<open>
  The transitive connection on classes of a set that is closed under subclasses, when
  the depth of the calls is enough for the hierarchy below them.
\<close>

lemma subclass_rel_closed:
  assumes "\<forall>c\<in>X. set (subclasses s c) \<subseteq> X"
  shows "(c, d) \<in> (subclass_rel s)\<^sup>* \<Longrightarrow> c \<in> X \<Longrightarrow> d \<in> X"
proof (induction rule: rtrancl_induct)
  case base
  then show ?case .
next
  case (step y z)
  then show ?case using assms by (auto simp: subclass_rel_def)
qed

lemma connect_subclasses_fn_all:
  assumes closed: "\<forall>c\<in>X. set (subclasses s0 c) \<subseteq> X"
    and rank: "\<forall>c\<in>X. \<forall>d\<in>set (subclasses s0 c). r d < r c"
  shows "conn_inv X n s \<Longrightarrow> subclasses s = subclasses s0 \<Longrightarrow> set cs \<subseteq> X \<Longrightarrow> cs \<noteq> [] \<Longrightarrow>
     \<forall>c\<in>set cs. r c < fuel \<Longrightarrow>
     \<exists>s'. connect_subclasses_fn fuel cs n h s = Some (None, s') \<and> conn_inv X n s' \<and>
          conn_frame X n s s' \<and>
          (\<forall>c\<in>set cs. \<forall>d. (c, d) \<in> (subclass_rel s0)\<^sup>* \<longrightarrow> registered s' d n h)"
proof (induction fuel arbitrary: cs s)
  case 0
  then show ?case by (cases cs) auto
next
  case (Suc fuel)
  obtain s1 subs where c1: "connect_and_collect cs n h [] s = (None, subs, s1)"
    and st: "set subs = set [] \<union> (\<Union>c\<in>set cs. set (subclasses s c))"
    and i1: "conn_inv X n s1" and f1: "conn_frame X n s s1"
    and r1: "\<forall>c\<in>set cs. registered s1 c n h"
    using connect_and_collect_all [OF Suc.prems(3) Suc.prems(1), of h "[]"] by blast
  have st': "set subs = (\<Union>c\<in>set cs. set (subclasses s0 c))"
    using st Suc.prems(2) by simp
  have sX: "set subs \<subseteq> X" unfolding st' using closed Suc.prems(3) by blast
  obtain s2 where c2: "connect_classes subs n h s1 = (None, s2)"
    and i2: "conn_inv X n s2" and f2: "conn_frame X n s1 s2"
    and r2: "\<forall>c\<in>set subs. registered s2 c n h"
    using connect_classes_all [OF sX i1, of h] by blast
  have f12: "conn_frame X n s s2" using f1 f2 by (rule conn_frame_trans)
  have r12: "\<forall>c\<in>set cs. registered s2 c n h"
    using r1 conn_frame_registered [OF f2] by blast
  show ?case
  proof (cases "subs = []")
    case True
    have run: "connect_subclasses_fn (Suc fuel) cs n h s = Some (None, s2)"
      using Suc.prems(4) c1 c2 True by simp
    have leaf: "\<forall>c\<in>set cs. subclasses s0 c = []" using st' True by simp
    have "registered s2 d n h" if c: "c \<in> set cs" and d: "(c, d) \<in> (subclass_rel s0)\<^sup>*" for c d
    proof -
      have "d = c"
        using d
      proof (cases rule: converse_rtranclE)
        case base
        then show ?thesis by simp
      next
        case (step y)
        then show ?thesis using leaf c by (simp add: subclass_rel_def)
      qed
      then show ?thesis using r12 c by simp
    qed
    then show ?thesis using run i2 f12 by blast
  next
    case False
    have u2: "subclasses s2 = subclasses s0"
      using conn_frame_subclasses [OF f12] Suc.prems(2) by simp
    have rk: "\<forall>d\<in>set subs. r d < fuel"
    proof
      fix d assume "d \<in> set subs"
      then obtain c where c: "c \<in> set cs" "d \<in> set (subclasses s0 c)" unfolding st' by blast
      then have "r d < r c" using rank Suc.prems(3) by blast
      moreover have "r c < Suc fuel" using Suc.prems(5) c(1) by blast
      ultimately show "r d < fuel" by simp
    qed
    obtain s3 where c3: "connect_subclasses_fn fuel subs n h s2 = Some (None, s3)"
      and i3: "conn_inv X n s3" and f3: "conn_frame X n s2 s3"
      and r3: "\<forall>c\<in>set subs. \<forall>d. (c, d) \<in> (subclass_rel s0)\<^sup>* \<longrightarrow> registered s3 d n h"
      using Suc.IH [OF i2 u2 sX False rk] by blast
    have run: "connect_subclasses_fn (Suc fuel) cs n h s = Some (None, s3)"
      using Suc.prems(4) c1 c2 c3 False by simp
    have f: "conn_frame X n s s3" using f12 f3 by (rule conn_frame_trans)
    have "registered s3 d n h" if c: "c \<in> set cs" and d: "(c, d) \<in> (subclass_rel s0)\<^sup>*" for c d
      using d
    proof (cases rule: converse_rtranclE)
      case base
      have "registered s2 c n h" using r12 c by blast
      then show ?thesis using conn_frame_registered [OF f3] base by simp
    next
      case (step y)
      then have "y \<in> set subs" using c unfolding st' by (auto simp: subclass_rel_def)
      then show ?thesis using r3 step(2) by blast
    qed
    then show ?thesis using run i3 f by blast
  qed
qed

lemma connect_subclasses_all:
  assumes "wf s" and "targets_ok s" and "A \<in> X"
    and "\<forall>c\<in>X. set (subclasses s c) \<subseteq> X"
    and "\<forall>c\<in>X. issubclass s c Signaler \<and> offers s c (name e)"
    and "\<forall>c\<in>X. \<forall>d\<in>set (subclasses s c). r d < r c" and "r A < fuel"
    and "(A, B) \<in> (subclass_rel s)\<^sup>*"
    and "D \<notin> X" and "signal_namespace s D = None" and "D \<notin> signal_classes s"
  obtains s' where
    "connect_subclasses fuel [A] (Some (name e)) h s = Some (None, s')"
    "\<forall>T. (A, T) \<in> (subclass_rel s)\<^sup>* \<longrightarrow> registered s' T (name e) h"
    "signal_namespace (def_subclass D B s') D = None"
    "D \<notin> signal_classes (def_subclass D B s')"
    "connected_to (def_subclass D B s') D (name e) h"
    "\<exists>s''. call_send_cls_signal D e [] True [] (def_subclass D B s') = (None, s'') \<and>
        (h, Cls D, [(''signal'', Sch e)]) \<in> set (new_log (def_subclass D B s') s'')"
    "\<forall>args. offers (signals_decorator args D (def_subclass D B s')) D (name e) \<and>
        \<not> connected_to (signals_decorator args D (def_subclass D B s')) D (name e) h"
    "log (def_subclass D B s') = log s"
proof -
  have inv: "conn_inv X (name e) s" using assms(1,5) by (simp add: conn_inv_def)
  have cs: "set [A] \<subseteq> X" "[A] \<noteq> []" "\<forall>c\<in>set [A]. r c < fuel" using assms(3,7) by simp_all
  obtain s' where run: "connect_subclasses_fn fuel [A] (name e) h s = Some (None, s')"
    and i: "conn_inv X (name e) s'" and f: "conn_frame X (name e) s s'"
    and r: "\<forall>c\<in>set [A]. \<forall>d. (c, d) \<in> (subclass_rel s)\<^sup>* \<longrightarrow> registered s' d (name e) h"
    using connect_subclasses_fn_all [OF assms(4,6) inv refl cs, of h] by blast
  let ?sD = "def_subclass D B s'"
  have zero: "connect_subclasses fuel [A] (Some (name e)) h s = Some (None, s')"
    using run by (simp add: connect_subclasses_def)
  have all: "\<forall>T. (A, T) \<in> (subclass_rel s)\<^sup>* \<longrightarrow> registered s' T (name e) h"
    using r by simp
  have rB: "registered s' B (name e) h" using all assms(8) by blast
  have BX: "B \<in> X" using subclass_rel_closed [OF assms(4) assms(8) assms(3)] .
  have iB: "issubclass s' B Signaler" using i BX unfolding conn_inv_def by blast
  have nD: "signal_namespace s' D = None"
    using f assms(9,10) unfolding conn_frame_def by simp
  have cD: "D \<notin> signal_classes s'"
    using f assms(9,11) unfolding conn_frame_def by blast
  have tg: "targets_ok s'" using f assms(2) unfolding conn_frame_def by blast
  have lg: "log s' = log s" using f unfolding conn_frame_def by blast
  have iD: "issubclass ?sD D Signaler" using iB by (rule later_subclass_issubclass)
  have one: "signal_namespace ?sD D = None" using nD by (simp add: def_subclass_frame)
  have two: "D \<notin> signal_classes ?sD" using cD by (simp add: def_subclass_frame)
  have three: "connected_to ?sD D (name e) h" using rB nD by (rule later_subclass_sees)
  have tgD: "targets_ok ?sD" using tg by simp
  have k: "''sender'' \<notin> keys ([] :: kwargs)" "''signal'' \<notin> keys ([] :: kwargs)"
    "''cls'' \<notin> keys ([] :: kwargs)" "length ([] :: pyval list) \<le> 1"
    by (simp_all add: keys_def)
  have four: "\<exists>s''. call_send_cls_signal D e [] True [] ?sD = (None, s'') \<and>
        (h, Cls D, [(''signal'', Sch e)]) \<in> set (new_log ?sD s'')"
    using emission_reaches_user [OF iD tgD three k] by (simp add: default_sender_def)
  have five: "\<forall>args. offers (signals_decorator args D ?sD) D (name e) \<and>
        \<not> connected_to (signals_decorator args D ?sD) D (name e) h"
    using later_subclass_declared [OF rB nD iB] by blast
  have six: "log ?sD = log s" using lg by (simp add: def_subclass_frame)
  show ?thesis using that [OF zero all one two three four five six] .
qed

lemma ex_E_classes [simp]:
  "ex_E \<noteq> ex_A" "ex_A \<noteq> ex_E" "ex_E \<noteq> ex_B" "ex_B \<noteq> ex_E" "ex_E \<noteq> ex_C" "ex_C \<noteq> ex_E"
  "ex_E \<noteq> ex_D" "ex_D \<noteq> ex_E" "ex_E \<noteq> Signaler" "Signaler \<noteq> ex_E"
  by (simp_all add: ex_A_def ex_B_def ex_C_def ex_D_def ex_E_def Signaler_def)

lemma ex_sAbce_fields:
  "mro_tail ex_sAbce = (\<lambda>c. [])(ex_A := [Signaler], ex_B := [ex_A, Signaler],
      ex_C := [ex_A, Signaler], ex_E := [ex_B, ex_A, Signaler])"
  "signal_namespace ex_sAbce = [ex_A \<mapsto> [(''created'', 0)]]"
  "signal_classes ex_sAbce = {ex_A}"
  "log ex_sAbce = []"
  by (simp_all add: ex_sAbce_def def_subclass_frame ex_sAbc_fields)

lemma ex_sAbce_subclasses:
  "subclasses ex_sAbce ex_A = [ex_B, ex_C]" "subclasses ex_sAbce ex_B = [ex_E]"
  "subclasses ex_sAbce ex_C = []" "subclasses ex_sAbce ex_E = []"
  by (simp_all add: ex_sAbce_def def_subclass_frame ex_sAbc_subclasses)

lemma ex_sAbce_ok: "wf ex_sAbce" "targets_ok ex_sAbce"
  by (simp_all add: ex_sAbce_def wf_def_subclass ex_sAbc_ok)

lemma ex_sAbce_hyps:
  "ex_A \<in> {ex_A, ex_B, ex_C, ex_E}"
  "\<forall>c\<in>{ex_A, ex_B, ex_C, ex_E}. set (subclasses ex_sAbce c) \<subseteq> {ex_A, ex_B, ex_C, ex_E}"
  "\<forall>c\<in>{ex_A, ex_B, ex_C, ex_E}.
      issubclass ex_sAbce c Signaler \<and> offers ex_sAbce c (name ex_created)"
  "\<forall>c\<in>{ex_A, ex_B, ex_C, ex_E}. \<forall>d\<in>set (subclasses ex_sAbce c).
      (if d = ex_A then 2 else if d = ex_B then 1 else (0::nat))
        < (if c = ex_A then 2 else if c = ex_B then 1 else 0)"
  "(if ex_A = ex_A then 2 else if ex_A = ex_B then 1 else (0::nat)) < 3"
  "ex_D \<notin> {ex_A, ex_B, ex_C, ex_E}" "signal_namespace ex_sAbce ex_D = None"
  "ex_D \<notin> signal_classes ex_sAbce"
  by (simp_all add: ex_sAbce_subclasses issubclass_def mro_def offers_def signals_def
      getattr_signal_namespace_def keys_def ex_sAbce_fields ex_created_def)

lemma ex_sAbce_below:
  "(ex_A, ex_B) \<in> (subclass_rel ex_sAbce)\<^sup>*" "(ex_A, ex_C) \<in> (subclass_rel ex_sAbce)\<^sup>*"
  "(ex_A, ex_E) \<in> (subclass_rel ex_sAbce)\<^sup>*"
proof -
  have r: "(ex_A, ex_B) \<in> subclass_rel ex_sAbce" "(ex_A, ex_C) \<in> subclass_rel ex_sAbce"
    "(ex_B, ex_E) \<in> subclass_rel ex_sAbce"
    by (simp_all add: subclass_rel_def ex_sAbce_subclasses)
  show "(ex_A, ex_B) \<in> (subclass_rel ex_sAbce)\<^sup>*" "(ex_A, ex_C) \<in> (subclass_rel ex_sAbce)\<^sup>*"
    using r(1,2) by blast+
  show "(ex_A, ex_E) \<in> (subclass_rel ex_sAbce)\<^sup>*"
    using r(1,3) by (meson r_into_rtrancl rtrancl_trans)
qed

text \<open>The same for the hierarchy without \<open>E\<close>.\<close>

lemma ex_sAbc_set:
  "ex_A \<in> {ex_A, ex_B, ex_C}"
  "\<forall>c\<in>{ex_A, ex_B, ex_C}. set (subclasses ex_sAbc c) \<subseteq> {ex_A, ex_B, ex_C}"
  "\<forall>c\<in>{ex_A, ex_B, ex_C}. issubclass ex_sAbc c Signaler \<and> offers ex_sAbc c (name ex_created)"
  "\<forall>c\<in>{ex_A, ex_B, ex_C}. \<forall>d\<in>set (subclasses ex_sAbc c).
      (if d = ex_A then 1 else (0::nat)) < (if c = ex_A then 1 else 0)"
  "(if ex_A = ex_A then 1 else (0::nat)) < 2"
  "(ex_A, ex_B) \<in> (subclass_rel ex_sAbc)\<^sup>*"
  "ex_D \<notin> {ex_A, ex_B, ex_C}" "signal_namespace ex_sAbc ex_D = None"
  "ex_D \<notin> signal_classes ex_sAbc"
  by (simp_all add: ex_sAbc_subclasses issubclass_def mro_def offers_def signals_def
      getattr_signal_namespace_def keys_def ex_sAbc_fields ex_created_def subclass_rel_def
      r_into_rtrancl)

section \<open>Declaring a name twice\<close>

text \<open>
  C1, as the code has it. A declaration builds a new table with new channels. When a
  class that can emit has a table of its own that binds \<open>n\<close>, a further declaration of
  the class keeps the name \<open>n\<close> in its table and binds it to a channel created by that
  declaration: a channel other than the one bound before, with no handler of a caller
  on it. The handlers connected before stay on the old channel.
\<close>

theorem redeclaration_new_channel:
  assumes "wf s" and "issubclass s T Signaler"
    and "signal_namespace s T = Some ns0" and "map_of ns0 n = Some i0"
  shows "\<exists>ns' i. signal_namespace (signals_decorator args T s) T = Some ns' \<and>
           map_of ns' n = Some i \<and> i \<noteq> i0 \<and> next_sid s \<le> i \<and>
           user_receivers (signals_decorator args T s) i = {} \<and>
           user_receivers (signals_decorator args T s) i0 = user_receivers s i0"
proof -
  let ?s' = "signals_decorator args T s"
  have g: "getattr_signal_namespace s T = Some ns0" using assms(3) by (rule getattr_own)
  have k: "n \<in> keys ns0" using assms(4) by (rule map_of_in_keys)
  have nin: "n \<in> (\<lambda>a. name (as_schema a)) ` set (schemata args T s)"
    using schemata_inherits [OF assms(2) g k] .
  obtain ns' where t: "signal_namespace ?s' T = Some ns'"
    "keys ns' = (\<lambda>a. name (as_schema a)) ` set (schemata args T s)"
    "\<forall>e\<in>set ns'. next_sid s \<le> snd e \<and> snd e < next_sid ?s' \<and> user_receivers ?s' (snd e) = {}"
    using signals_decorator_table [of args T s] by blast
  have "n \<in> keys ns'" using nin t(2) by simp
  then obtain i where i: "map_of ns' n = Some i"
    by (cases "map_of ns' n") (auto simp: keys_def map_of_eq_None_iff)
  then have "(n, i) \<in> set ns'" by (rule map_of_SomeD)
  then have f: "next_sid s \<le> i" "user_receivers ?s' i = {}" using t(3) by auto
  have "(n, i0) \<in> set ns0" using assms(4) by (rule map_of_SomeD)
  moreover have "\<forall>e\<in>set ns0. snd e < next_sid s"
    using assms(1,3) unfolding wf_def by blast
  ultimately have old: "i0 < next_sid s" by force
  have "i \<noteq> i0" using old f(1) by simp
  moreover have "user_receivers ?s' i0 = user_receivers s i0"
    using old by (rule signals_decorator_old_users)
  ultimately show ?thesis using t(1) i f by blast
qed

text \<open>\<open>A\<close> is declared, \<open>h\<close> is connected to its channel \<^verbatim>\<open>created\<close>, and \<open>A\<close> is declared again.\<close>

theorem redeclaration_new_channel_witness:
  "wf ex_sA1 \<and> issubclass ex_sA1 ex_A Signaler \<and>
   signal_namespace ex_sA1 ex_A = Some [(''created'', 0)] \<and>
   (\<exists>ns' i. signal_namespace (signals_decorator [SchemaArg ex_created] ex_A ex_sA1) ex_A = Some ns' \<and>
      map_of ns' ''created'' = Some i \<and> i \<noteq> 0 \<and> next_sid ex_sA1 \<le> i \<and>
      user_receivers (signals_decorator [SchemaArg ex_created] ex_A ex_sA1) i = {} \<and>
      user_receivers (signals_decorator [SchemaArg ex_created] ex_A ex_sA1) 0 = user_receivers ex_sA1 0)"
proof -
  have i: "issubclass ex_sA1 ex_A Signaler"
    by (simp add: issubclass_def mro_def ex_sA1_fields)
  have t: "signal_namespace ex_sA1 ex_A = Some [(''created'', 0)]"
    by (simp add: ex_sA1_fields)
  have m: "map_of [(''created'', 0::nat)] ''created'' = Some 0" by simp
  show ?thesis
    using redeclaration_new_channel [OF wf_ex_sA1 i t m, of "[SchemaArg ex_created]"]
    by (simp add: wf_ex_sA1 i t)
qed

text \<open>
  C1 as stated fails. The handler \<open>h\<close> is on the channel that the table of \<open>A\<close> binds to
  \<^verbatim>\<open>created\<close>; after the second declaration the table binds \<^verbatim>\<open>created\<close> to another
  channel, and an emission of \<^verbatim>\<open>created\<close> on \<open>A\<close> calls no handler.
\<close>

theorem redeclaration_counterexample:
  "signal_namespace ex_sA1 ex_A = Some [(''created'', 0)] \<and>
   ex_h \<in> user_receivers ex_sA1 0 \<and>
   signal_namespace ex_sA2 ex_A = Some [(''created'', 1)] \<and>
   send_cls_signal ex_A ex_created [] True [] ex_sA2 = (None, ex_sA2) \<and>
   log ex_sA2 = []"
proof -
  have n: "name ex_created = ''created''" by (simp add: ex_created_def)
  have nc: "\<forall>a\<in>set (schemata [SchemaArg ex_created] ex_A ex_sA1).
              no_clash (name ex_created) (name (as_schema a))"
    by (simp add: ex_sA1_schemata no_clash_def ex_created_def EVENT_TRIGGERED_def)
  have k: "''sender'' \<notin> keys ([] :: kwargs)" "''signal'' \<notin> keys ([] :: kwargs)"
    "length ([] :: pyval list) \<le> 1"
    by (simp_all add: keys_def)
  have i: "name ex_created \<in> (\<lambda>a. name (as_schema a)) ` set (schemata [SchemaArg ex_created] ex_A ex_sA1)"
    by (simp add: ex_sA1_schemata)
  have "send_cls_signal ex_A ex_created [] True [] ex_sA2 = (None, ex_sA2)"
    using emission_declared [OF wf_ex_sA1 i nc k ex_sA2_def]
    by (simp add: ex_sA1_fields ex_sA2_fields)
  then show ?thesis by (simp add: ex_sA1_fields ex_sA2_fields)
qed

section \<open>Cascade status across a declaration of a subclass\<close>

text \<open>
  C2 fails on the code. \<open>A\<close> declares \<^verbatim>\<open>created\<close> with the cascade flag set, and a handler
  \<open>h\<close> is connected to the base signal \<^verbatim>\<open>created\<close>: emitting on \<open>A\<close> calls \<open>h\<close>. When
  the subclass \<open>B\<close> is declared, the schema derived for the inherited name has the flag
  unset, because the closures on the channel of \<open>A\<close> are not named \<^verbatim>\<open>cascade\<close>; the channel
  of \<open>B\<close> gets no edge to the base signal, and emitting on \<open>B\<close> calls nothing.
\<close>

theorem cascade_not_inherited:
  "cascade ex_created \<and>
   signal_namespace ex_sAhb ex_A = Some [(''created'', 0)] \<and>
   send_cls_signal ex_A ex_created [] True [] ex_sAh
     = (None, ex_sAh\<lparr> log := [(ex_h, Cls ex_A, [(''signal'', Sch ex_created)])] \<rparr>) \<and>
   schemata [] ex_B ex_sAhb = [SchemaArg \<lparr> name = ''created'', cascade = False \<rparr>] \<and>
   ex_h \<in> set (handlers_of ex_sAhB ''created'') \<and>
   send_cls_signal ex_B ex_created [] True [] ex_sAhB = (None, ex_sAhB) \<and>
   log ex_sAhB = []"
proof -
  have n: "name ex_created = ''created''" "cascade ex_created"
    by (simp_all add: ex_created_def)
  have ncA: "\<forall>a\<in>set (schemata [SchemaArg ex_created] ex_A ex_s0).
              no_clash (name ex_created) (name (as_schema a))"
    by (simp add: ex_s0_schemata no_clash_def ex_created_def EVENT_TRIGGERED_def)
  have cA: "cascading [SchemaArg ex_created] ''created''"
    by (simp add: cascading_def ex_created_def)
  have hA: "handlers_of ex_sAh ''created'' = [ex_h]" "handlers_of ex_sAh EVENT_TRIGGERED = []"
    "log ex_sAh = []"
    by (simp_all add: ex_sAh_def handlers_of_connect_base_signal ex_sA_handlers
        connect_base_signal_frame ex_sA_fields EVENT_TRIGGERED_def)
  have sendA: "send_cls_signal ex_A ex_created [] True [] ex_sAh
     = (None, ex_sAh\<lparr> log := [(ex_h, Cls ex_A, [(''signal'', Sch ex_created)])] \<rparr>)"
  proof -
    have eq: "ex_sAh = connect_base_signal ''created'' ex_h
                (signals_decorator [SchemaArg ex_created] ex_A ex_s0)"
      by (simp add: ex_sAh_def ex_sA_def)
    have k: "''sender'' \<notin> keys ([] :: kwargs)" "''signal'' \<notin> keys ([] :: kwargs)"
      "length ([] :: pyval list) \<le> 1"
      by (simp_all add: keys_def)
    have i: "name ex_created \<in> (\<lambda>a. name (as_schema a)) ` set (schemata [SchemaArg ex_created] ex_A ex_s0)"
      by (simp add: ex_s0_schemata)
    show ?thesis
      using emission_after_declaration [OF wf_ex_s0 i ncA k eq]
      by (simp add: ex_s0_schemata n cA hA default_sender_def)
  qed
  have ncB: "\<forall>a\<in>set (schemata [] ex_B ex_sAhb). no_clash (name ex_created) (name (as_schema a))"
    by (simp add: ex_sAhb_schemata no_clash_def ex_created_def EVENT_TRIGGERED_def)
  have cB: "\<not> cascading (schemata [] ex_B ex_sAhb) ''created''"
    by (simp add: ex_sAhb_schemata cascading_def)
  have lB: "log ex_sAhB = []"
    by (simp add: ex_sAhB_eq signals_decorator_frame ex_sAhb_fields)
  have hB: "handlers_of ex_sAhB ''created'' = [ex_h]"
    by (simp add: ex_sAhB_eq handlers_of_signals_decorator ex_sAhb_fields)
  have sendB: "send_cls_signal ex_B ex_created [] True [] ex_sAhB = (None, ex_sAhB)"
  proof -
    have k: "''sender'' \<notin> keys ([] :: kwargs)" "''signal'' \<notin> keys ([] :: kwargs)"
      "length ([] :: pyval list) \<le> 1"
      by (simp_all add: keys_def)
    have i: "name ex_created \<in> (\<lambda>a. name (as_schema a)) ` set (schemata [] ex_B ex_sAhb)"
      by (simp add: ex_sAhb_schemata n)
    show ?thesis
      using emission_declared [OF wf_ex_sAhb i ncB k ex_sAhB_eq] lB
      by (simp add: n cB ex_sAhb_fields)
  qed
  show ?thesis
    using n(2) sendA sendB lB hB by (simp add: ex_sAhb_fields ex_sAhb_schemata)
qed

section \<open>The ancestor merge\<close>

text \<open>
  C3, as the code has it. The merge computed for \<open>B\<close> walks the linearization of \<open>B\<close>
  from \<open>B\<close> to its bases, and the table seen by a class visited later is laid over what
  was collected before. So the merged table has the names of all the tables visited, and
  when \<open>A\<close> has a table of its own that binds \<open>n\<close> and no class after \<open>A\<close> in the
  linearization sees a table that binds \<open>n\<close>, the merged table binds \<open>n\<close> to the channel
  of \<open>A\<close>, whatever the classes between \<open>B\<close> and \<open>A\<close> bind it to. The merged table only
  gives a declaration of \<open>B\<close> the names it inherits: the table of \<open>B\<close> after the
  declaration binds \<open>n\<close> to a channel created by that declaration, which is not the
  channel of \<open>A\<close> and has no handler of a caller.
\<close>

theorem merge_most_base_wins:
  assumes "wf s" and "mro s B = pre @ A # post"
    and "issubclass s A Signaler"
    and "signal_namespace s A = Some nsA" and "map_of nsA n = Some ca"
    and "\<forall>p\<in>set post. issubclass s p Signaler \<longrightarrow>
           (\<forall>d. getattr_signal_namespace s p = Some d \<longrightarrow> n \<notin> keys d)"
  shows "map_of (merge_dict_class_vars s B Signaler) n = Some ca \<and>
         keys (merge_dict_class_vars s B Signaler) =
           (\<Union>p\<in>{p \<in> set (mro s B). issubclass s p Signaler}.
               case getattr_signal_namespace s p of None \<Rightarrow> {} | Some d \<Rightarrow> keys d) \<and>
         (\<exists>ns' i. signal_namespace (signals_decorator args B s) B = Some ns' \<and>
            map_of ns' n = Some i \<and> ca < next_sid s \<and> next_sid s \<le> i \<and>
            user_receivers (signals_decorator args B s) i = {})"
proof -
  let ?s' = "signals_decorator args B s"
  have gA: "getattr_signal_namespace s A = Some nsA" using assms(4) by (rule getattr_own)
  have dA: "distinct (map fst nsA)" "\<forall>e\<in>set nsA. snd e < next_sid s"
    using wf_getattr [OF assms(1) gA] by blast+
  have m: "map_of (merge_dict_class_vars s B Signaler) n = Some ca"
    unfolding merge_dict_class_vars_def assms(2)
    using assms(3) gA dA(1) assms(5,6) by (rule merge_loop_last)
  have k: "keys (merge_dict_class_vars s B Signaler) =
           (\<Union>p\<in>{p \<in> set (mro s B). issubclass s p Signaler}.
               case getattr_signal_namespace s p of None \<Rightarrow> {} | Some d \<Rightarrow> keys d)"
    unfolding merge_dict_class_vars_def keys_merge_loop_eq by (simp add: keys_def)
  have "(n, ca) \<in> set nsA" using assms(5) by (rule map_of_SomeD)
  then have old: "ca < next_sid s" using dA(2) by force
  have "A \<in> set (mro s B)" using assms(2) by simp
  then have "lookup_attr (signal_namespace s) (mro s B) \<noteq> None"
    using assms(4) unfolding lookup_attr_None by force
  then obtain d0 where gB: "getattr_signal_namespace s B = Some d0"
    by (auto simp: getattr_signal_namespace_def)
  have "n \<in> keys (merge_dict_class_vars s B Signaler)" using m by (rule map_of_in_keys)
  then have "n \<in> (\<lambda>a. name (as_schema a)) ` set (inherited_schemata s B)"
    by (force simp: inherited_schemata_def keys_def image_iff)
  then have nin: "n \<in> (\<lambda>a. name (as_schema a)) ` set (schemata args B s)"
    using gB by (auto simp: schemata_def)
  obtain ns' where t: "signal_namespace ?s' B = Some ns'"
    "keys ns' = (\<lambda>a. name (as_schema a)) ` set (schemata args B s)"
    "\<forall>e\<in>set ns'. next_sid s \<le> snd e \<and> snd e < next_sid ?s' \<and> user_receivers ?s' (snd e) = {}"
    using signals_decorator_table [of args B s] by blast
  have "n \<in> keys ns'" using nin t(2) by simp
  then have "\<exists>i. map_of ns' n = Some i" by (rule keys_map_of)
  then obtain i where i: "map_of ns' n = Some i" by (rule exE)
  then have "(n, i) \<in> set ns'" by (rule map_of_SomeD)
  then have f: "next_sid s \<le> i" "user_receivers ?s' i = {}" using t(3) by auto
  have d: "\<exists>ns' i. signal_namespace ?s' B = Some ns' \<and>
            map_of ns' n = Some i \<and> ca < next_sid s \<and> next_sid s \<le> i \<and>
            user_receivers ?s' i = {}"
    using t(1) i old f by blast
  show ?thesis by (intro conjI) (rule m, rule k, rule d)
qed

text \<open>
  \<open>A\<close> and \<open>B\<close> have declared \<^verbatim>\<open>created\<close> and \<open>D\<close> is a subclass of \<open>B\<close>: the merge for \<open>D\<close>
  visits \<open>D\<close>, \<open>B\<close> and \<open>A\<close>, and its entry is the channel of \<open>A\<close>, not the one of \<open>B\<close>.
\<close>

theorem merge_most_base_wins_witness:
  "wf ex_sABd \<and> mro ex_sABd ex_D = [ex_D, ex_B] @ ex_A # [Signaler] \<and>
   issubclass ex_sABd ex_A Signaler \<and>
   signal_namespace ex_sABd ex_A = Some [(''created'', 0)] \<and>
   signal_namespace ex_sABd ex_B = Some [(''created'', 1)] \<and>
   map_of (merge_dict_class_vars ex_sABd ex_D Signaler) ''created'' = Some 0 \<and>
   (\<exists>ns' i. signal_namespace (signals_decorator [] ex_D ex_sABd) ex_D = Some ns' \<and>
      map_of ns' ''created'' = Some i \<and> 0 < next_sid ex_sABd \<and> next_sid ex_sABd \<le> i \<and>
      user_receivers (signals_decorator [] ex_D ex_sABd) i = {})"
proof -
  have m: "mro ex_sABd ex_D = [ex_D, ex_B] @ ex_A # [Signaler]"
    by (simp add: mro_def ex_sABd_fields)
  have i: "issubclass ex_sABd ex_A Signaler" by (simp add: issubclass_def mro_def ex_sABd_fields)
  have a: "signal_namespace ex_sABd ex_A = Some [(''created'', 0)]"
    and b: "signal_namespace ex_sABd ex_B = Some [(''created'', 1)]"
    by (simp_all add: ex_sABd_fields)
  have c: "map_of [(''created'', 0::nat)] ''created'' = Some 0" by simp
  have p: "\<forall>p\<in>set [Signaler]. issubclass ex_sABd p Signaler \<longrightarrow>
     (\<forall>d. getattr_signal_namespace ex_sABd p = Some d \<longrightarrow> ''created'' \<notin> keys d)"
    by (simp add: getattr_signal_namespace_def mro_def ex_sABd_fields)
  show ?thesis
    using merge_most_base_wins [OF wf_ex_sABd m i a c p, of "[]"]
    by (simp add: wf_ex_sABd m i a b)
qed

text \<open>
  C3 as stated fails. \<open>A\<close> and then \<open>B\<close> have declared \<^verbatim>\<open>created\<close>. The merged table
  binds it to the channel of \<open>A\<close>, but the table of \<open>B\<close>, which an emission on \<open>B\<close> uses,
  binds it to the channel made by the declaration of \<open>B\<close>.
\<close>

theorem declared_entry_not_from_base_counterexample:
  "signal_namespace ex_sAB ex_A = Some [(''created'', 0)] \<and>
   map_of (merge_dict_class_vars ex_sAb ex_B Signaler) ''created'' = Some 0 \<and>
   map_of (merge_dict_class_vars ex_sAB ex_B Signaler) ''created'' = Some 0 \<and>
   signals ex_sAB ex_B = Inr [(''created'', 1)]"
  by (simp add: lookup_defs dict_set.simps ex_sAB_fields ex_sAb_fields)

section \<open>Cascade and universal fan-out\<close>







section \<open>The error for a name that is not declared\<close>




section \<open>The transitive connection\<close>

text \<open>
  C7, as the code has it. Take a state the module can reach, a class \<open>A\<close>, and a set
  \<open>X\<close> of classes that has \<open>A\<close> and the subclasses of each of its classes, all of which
  can emit and see the name \<open>n\<close> in their tables; let the hierarchy below \<open>A\<close> be finite
  (\<open>r\<close> bounds its depth) and the calls of \<^verbatim>\<open>connect_subclasses_fn\<close> be allowed that
  depth. Then the transitive connection of \<open>h\<close> to \<open>A\<close> for \<open>n\<close> returns, and \<open>A\<close>, its
  subclasses, their subclasses and so on are then in the registry with \<open>h\<close> on the
  channel that the own table of each binds to \<open>n\<close>. A class \<open>D\<close> defined after that below
  one of them, \<open>B\<close>, has no table of its own and is not in the registry; it sees the
  table of \<open>B\<close>, so \<open>h\<close> is on the channel that \<open>D\<close> resolves \<open>n\<close> to and an emission
  of \<open>n\<close> on \<open>D\<close> calls \<open>h\<close>. Once \<open>D\<close> is declared, its own table binds \<open>n\<close> to a
  channel that \<open>h\<close> is not on.
\<close>

theorem transitive_connection_snapshot:
  assumes "wf s" and "targets_ok s" and "A \<in> X"
    and "\<forall>c\<in>X. set (subclasses s c) \<subseteq> X"
    and "\<forall>c\<in>X. issubclass s c Signaler \<and> offers s c (name e)"
    and "\<forall>c\<in>X. \<forall>d\<in>set (subclasses s c). r d < r c" and "r A < fuel"
    and "(A, B) \<in> (subclass_rel s)\<^sup>*"
    and "D \<notin> X" and "signal_namespace s D = None" and "D \<notin> signal_classes s"
  shows "\<exists>s'. connect_subclasses fuel [A] (Some (name e)) h s = Some (None, s') \<and>
           (\<forall>T. (A, T) \<in> (subclass_rel s)\<^sup>* \<longrightarrow> registered s' T (name e) h) \<and>
           signal_namespace (def_subclass D B s') D = None \<and>
           D \<notin> signal_classes (def_subclass D B s') \<and>
           connected_to (def_subclass D B s') D (name e) h \<and>
           (\<exists>s''. call_send_cls_signal D e [] True [] (def_subclass D B s') = (None, s'') \<and>
              (h, Cls D, [(''signal'', Sch e)]) \<in> set (new_log (def_subclass D B s') s'')) \<and>
           (\<forall>args. offers (signals_decorator args D (def_subclass D B s')) D (name e) \<and>
              \<not> connected_to (signals_decorator args D (def_subclass D B s')) D (name e) h)"
proof -
  obtain s' where
    "connect_subclasses fuel [A] (Some (name e)) h s = Some (None, s')"
    "\<forall>T. (A, T) \<in> (subclass_rel s)\<^sup>* \<longrightarrow> registered s' T (name e) h"
    "signal_namespace (def_subclass D B s') D = None"
    "D \<notin> signal_classes (def_subclass D B s')"
    "connected_to (def_subclass D B s') D (name e) h"
    "\<exists>s''. call_send_cls_signal D e [] True [] (def_subclass D B s') = (None, s'') \<and>
        (h, Cls D, [(''signal'', Sch e)]) \<in> set (new_log (def_subclass D B s') s'')"
    "\<forall>args. offers (signals_decorator args D (def_subclass D B s')) D (name e) \<and>
        \<not> connected_to (signals_decorator args D (def_subclass D B s')) D (name e) h"
    "log (def_subclass D B s') = log s"
    using assms by (rule connect_subclasses_all)
  then show ?thesis by - (rule exI [of _ s'], intro conjI)
qed

text \<open>
  \<open>A\<close> has declared \<^verbatim>\<open>created\<close>; \<open>B\<close> and \<open>C\<close> are its subclasses and \<open>E\<close> is a subclass
  of \<open>B\<close>, none of them declared; \<open>D\<close> is defined below \<open>B\<close> after the connection.
\<close>

theorem transitive_connection_snapshot_witness:
  "wf ex_sAbce \<and> targets_ok ex_sAbce \<and>
   subclasses ex_sAbce ex_A = [ex_B, ex_C] \<and> subclasses ex_sAbce ex_B = [ex_E] \<and>
   subclasses ex_sAbce ex_C = [] \<and> subclasses ex_sAbce ex_E = [] \<and>
   signal_namespace ex_sAbce ex_D = None \<and> ex_D \<notin> signal_classes ex_sAbce \<and>
   (\<exists>s'. connect_subclasses 3 [ex_A] (Some (name ex_created)) ex_h ex_sAbce = Some (None, s') \<and>
      registered s' ex_A (name ex_created) ex_h \<and> registered s' ex_B (name ex_created) ex_h \<and>
      registered s' ex_C (name ex_created) ex_h \<and> registered s' ex_E (name ex_created) ex_h \<and>
      connected_to (def_subclass ex_D ex_B s') ex_D (name ex_created) ex_h \<and>
      (\<exists>s''. call_send_cls_signal ex_D ex_created [] True [] (def_subclass ex_D ex_B s')
                = (None, s'') \<and>
         (ex_h, Cls ex_D, [(''signal'', Sch ex_created)])
            \<in> set (new_log (def_subclass ex_D ex_B s') s'')) \<and>
      offers (signals_decorator [] ex_D (def_subclass ex_D ex_B s')) ex_D (name ex_created) \<and>
      \<not> connected_to (signals_decorator [] ex_D (def_subclass ex_D ex_B s')) ex_D
            (name ex_created) ex_h)"
proof -
  note h = ex_sAbce_hyps
  note b = ex_sAbce_below
  obtain s' where f:
    "connect_subclasses 3 [ex_A] (Some (name ex_created)) ex_h ex_sAbce = Some (None, s')"
    "\<forall>T. (ex_A, T) \<in> (subclass_rel ex_sAbce)\<^sup>* \<longrightarrow> registered s' T (name ex_created) ex_h"
    "connected_to (def_subclass ex_D ex_B s') ex_D (name ex_created) ex_h"
    "\<exists>s''. call_send_cls_signal ex_D ex_created [] True [] (def_subclass ex_D ex_B s')
                = (None, s'') \<and>
         (ex_h, Cls ex_D, [(''signal'', Sch ex_created)])
            \<in> set (new_log (def_subclass ex_D ex_B s') s'')"
    "\<forall>args. offers (signals_decorator args ex_D (def_subclass ex_D ex_B s')) ex_D
               (name ex_created) \<and>
        \<not> connected_to (signals_decorator args ex_D (def_subclass ex_D ex_B s')) ex_D
            (name ex_created) ex_h"
    using transitive_connection_snapshot [OF ex_sAbce_ok h(1,2,3,4,5) b(1) h(6,7,8), of ex_h]
    by blast
  have r: "registered s' ex_A (name ex_created) ex_h" "registered s' ex_B (name ex_created) ex_h"
    "registered s' ex_C (name ex_created) ex_h" "registered s' ex_E (name ex_created) ex_h"
    using f(2) b by blast+
  have d: "offers (signals_decorator [] ex_D (def_subclass ex_D ex_B s')) ex_D (name ex_created)"
    "\<not> connected_to (signals_decorator [] ex_D (def_subclass ex_D ex_B s')) ex_D
            (name ex_created) ex_h"
    using f(5) by blast+
  have "\<exists>s'. connect_subclasses 3 [ex_A] (Some (name ex_created)) ex_h ex_sAbce = Some (None, s') \<and>
      registered s' ex_A (name ex_created) ex_h \<and> registered s' ex_B (name ex_created) ex_h \<and>
      registered s' ex_C (name ex_created) ex_h \<and> registered s' ex_E (name ex_created) ex_h \<and>
      connected_to (def_subclass ex_D ex_B s') ex_D (name ex_created) ex_h \<and>
      (\<exists>s''. call_send_cls_signal ex_D ex_created [] True [] (def_subclass ex_D ex_B s')
                = (None, s'') \<and>
         (ex_h, Cls ex_D, [(''signal'', Sch ex_created)])
            \<in> set (new_log (def_subclass ex_D ex_B s') s'')) \<and>
      offers (signals_decorator [] ex_D (def_subclass ex_D ex_B s')) ex_D (name ex_created) \<and>
      \<not> connected_to (signals_decorator [] ex_D (def_subclass ex_D ex_B s')) ex_D
            (name ex_created) ex_h"
    using f(1) r f(3,4) d by - (rule exI [of _ s'], intro conjI)
  then show ?thesis
    using ex_sAbce_ok ex_sAbce_subclasses h(7,8) by (intro conjI)
qed

text \<open>
  C7 as stated fails for the class defined afterwards. After the transitive connection
  on \<open>A\<close>, \<open>D\<close> is defined below \<open>B\<close> and is never declared: the channel that \<open>D\<close>
  resolves \<^verbatim>\<open>created\<close> to is the one of \<open>B\<close>, \<open>h\<close> is on it, and an emission of
  \<^verbatim>\<open>created\<close> on \<open>D\<close> calls \<open>h\<close>.
\<close>

theorem later_subclass_connected_counterexample:
  "connect_subclasses 2 [ex_A] (Some ''created'') ex_h ex_sAbc = Some (None, ex_sT) \<and>
   signal_namespace ex_sTd ex_D = None \<and> ex_D \<notin> signal_classes ex_sTd \<and>
   log ex_sTd = [] \<and>
   connected_to ex_sTd ex_D ''created'' ex_h \<and>
   fst (call_send_cls_signal ex_D ex_created [] True [] ex_sTd) = None \<and>
   (ex_h, Cls ex_D, [(''signal'', Sch ex_created)])
      \<in> set (log (snd (call_send_cls_signal ex_D ex_created [] True [] ex_sTd)))"
proof -
  note h = ex_sAbc_set
  have nm: "name ex_created = ''created''" by (simp add: ex_created_def)
  obtain s' where
    run: "connect_subclasses 2 [ex_A] (Some (name ex_created)) ex_h ex_sAbc = Some (None, s')"
    and f: "signal_namespace (def_subclass ex_D ex_B s') ex_D = None"
      "ex_D \<notin> signal_classes (def_subclass ex_D ex_B s')"
      "connected_to (def_subclass ex_D ex_B s') ex_D (name ex_created) ex_h"
      "\<exists>s''. call_send_cls_signal ex_D ex_created [] True [] (def_subclass ex_D ex_B s')
                = (None, s'') \<and>
         (ex_h, Cls ex_D, [(''signal'', Sch ex_created)])
            \<in> set (new_log (def_subclass ex_D ex_B s') s'')"
      "log (def_subclass ex_D ex_B s') = log ex_sAbc"
    using connect_subclasses_all [OF ex_sAbc_ok h, of ex_h]
    by metis
  have run': "connect_subclasses 2 [ex_A] (Some ''created'') ex_h ex_sAbc = Some (None, s')"
    using run unfolding nm .
  have e: "ex_sT = s'" unfolding ex_sT_def run' by simp
  have d: "ex_sTd = def_subclass ex_D ex_B s'" unfolding ex_sTd_def e ..
  have l: "log ex_sTd = []"
    using f(5) unfolding d by (simp add: ex_sAbc_fields)
  obtain s'' where s'': "call_send_cls_signal ex_D ex_created [] True [] ex_sTd = (None, s'')"
    "(ex_h, Cls ex_D, [(''signal'', Sch ex_created)]) \<in> set (new_log ex_sTd s'')"
    using f(4) unfolding d by blast
  have "(ex_h, Cls ex_D, [(''signal'', Sch ex_created)]) \<in> set (log s'')"
    using s''(2) l by (simp add: new_log_def)
  then show ?thesis
    using run' f(1,2,3) l s''(1) unfolding d e nm by simp
qed

section \<open>Introspection\<close>

text \<open>
  C8, as the code has it. \<^verbatim>\<open>signals()\<close> raises the no-namespace error exactly when no
  class in the method resolution order of the type has an event table of its own.
  Otherwise it returns the table of the first class in that order that has one: the
  type's own table when it has one, else the table of its nearest ancestor that has
  one. A type that has just been declared has a table of its own.
\<close>

theorem signals_raises_iff:
  "((signals s c = Inl (ValueError ''Namespace not defined on''))
      = (\<forall>p\<in>set (mro s c). signal_namespace s p = None))
   \<and> (\<forall>ns. (signals s c = Inr ns)
         = (\<exists>pre p post. mro s c = pre @ p # post \<and>
               (\<forall>q\<in>set pre. signal_namespace s q = None) \<and> signal_namespace s p = Some ns))
   \<and> (\<forall>ns. signal_namespace s c = Some ns \<longrightarrow> signals s c = Inr ns)
   \<and> (\<exists>ns. signal_namespace (signals_decorator args c s) c = Some ns
           \<and> signals (signals_decorator args c s) c = Inr ns)"
proof -
  have one: "(signals s c = Inl (ValueError ''Namespace not defined on''))
      = (\<forall>p\<in>set (mro s c). signal_namespace s p = None)"
  proof (cases "getattr_signal_namespace s c")
    case None
    then have "\<forall>p\<in>set (mro s c). signal_namespace s p = None"
      using lookup_attr_None [of "signal_namespace s" "mro s c"]
      by (simp add: getattr_signal_namespace_def)
    with None show ?thesis by (simp add: signals_def)
  next
    case (Some ns)
    then have "\<not> (\<forall>p\<in>set (mro s c). signal_namespace s p = None)"
      using lookup_attr_None [of "signal_namespace s" "mro s c"]
      by (simp add: getattr_signal_namespace_def)
    with Some show ?thesis by (simp add: signals_def)
  qed
  have nearest: "(signals s c = Inr ns)
         = (\<exists>pre p post. mro s c = pre @ p # post \<and>
               (\<forall>q\<in>set pre. signal_namespace s q = None) \<and> signal_namespace s p = Some ns)" for ns
  proof -
    have "(signals s c = Inr ns) = (getattr_signal_namespace s c = Some ns)"
      by (cases "getattr_signal_namespace s c") (simp_all add: signals_def)
    then show ?thesis
      unfolding getattr_signal_namespace_def lookup_attr_Some .
  qed
  have two: "\<forall>ns. signal_namespace s c = Some ns \<longrightarrow> signals s c = Inr ns"
    by (simp add: signals_def getattr_own)
  have three: "\<exists>ns. signal_namespace (signals_decorator args c s) c = Some ns
           \<and> signals (signals_decorator args c s) c = Inr ns"
    by (simp add: signals_decorator_def Let_def signals_def getattr_own)
  have nearest': "\<forall>ns. (signals s c = Inr ns)
         = (\<exists>pre p post. mro s c = pre @ p # post \<and>
               (\<forall>q\<in>set pre. signal_namespace s q = None) \<and> signal_namespace s p = Some ns)"
    using nearest by blast
  show ?thesis
    by (intro conjI) (rule one, rule nearest', rule two, rule three)
qed

text \<open>
  The class \<open>A\<close> before its declaration has no table in its resolution order and the
  query raises; after its declaration the query returns its table. \<open>D\<close> is an
  undeclared subclass of \<open>B\<close>, itself a subclass of \<open>A\<close>, both declared: the query on \<open>D\<close>
  returns the table of \<open>B\<close>.
\<close>

theorem signals_raises_iff_witness:
  "signals ex_s0 ex_A = Inl (ValueError ''Namespace not defined on'') \<and>
   signal_namespace ex_sA ex_A = Some [(''created'', 0)] \<and>
   signals ex_sA ex_A = Inr [(''created'', 0)] \<and>
   mro ex_sABd ex_D = [ex_D] @ ex_B # [ex_A, Signaler] \<and>
   signal_namespace ex_sABd ex_D = None \<and>
   signal_namespace ex_sABd ex_B = Some [(''created'', 1)] \<and>
   signal_namespace ex_sABd ex_A = Some [(''created'', 0)] \<and>
   signals ex_sABd ex_D = Inr [(''created'', 1)]"
proof -
  have a: "\<forall>p\<in>set (mro ex_s0 ex_A). signal_namespace ex_s0 p = None"
    by (simp add: mro_def ex_s0_fields)
  have b: "signal_namespace ex_sA ex_A = Some [(''created'', 0)]"
    by (simp add: ex_sA_fields)
  have m: "mro ex_sABd ex_D = [ex_D] @ ex_B # [ex_A, Signaler]"
    by (simp add: mro_def ex_sABd_fields)
  have t: "signal_namespace ex_sABd ex_D = None"
    "signal_namespace ex_sABd ex_B = Some [(''created'', 1)]"
    "signal_namespace ex_sABd ex_A = Some [(''created'', 0)]"
    by (simp_all add: ex_sABd_fields)
  have e: "\<exists>pre p post. mro ex_sABd ex_D = pre @ p # post \<and>
      (\<forall>q\<in>set pre. signal_namespace ex_sABd q = None) \<and>
      signal_namespace ex_sABd p = Some [(''created'', 1)]"
    using m t by (intro exI [of _ "[ex_D]"] exI [of _ ex_B] exI [of _ "[ex_A, Signaler]"]) simp
  have d: "signals ex_sABd ex_D = Inr [(''created'', 1)]"
    using signals_raises_iff [of ex_sABd ex_D "[]"] e by blast
  from a b m t d show ?thesis
    using signals_raises_iff [of ex_s0 ex_A "[]"] signals_raises_iff [of ex_sA ex_A "[]"]
    by simp
qed

text \<open>
  C8 as stated fails: \<open>B\<close>, a subclass of the declared \<open>A\<close>, was never declared, directly
  or lazily, and the query on \<open>B\<close> returns the table of \<open>A\<close>.
\<close>

theorem signals_undeclared_subclass_counterexample:
  "ex_B \<notin> signal_classes ex_sAb \<and> signal_namespace ex_sAb ex_B = None \<and>
   signals ex_sAb ex_B = Inr [(''created'', 0)]"
  by (simp add: signals_def getattr_signal_namespace_def mro_def ex_sAb_fields)

section \<open>Schemas\<close>

text \<open>
  C9, as the code has it. Two schemas with the same name have the same hash, whatever
  their cascade flags; equality is identity, so a schema is equal to itself and to no
  other object.
\<close>

theorem schema_hash_by_name:
  "(name (snd s) = name (snd t) \<longrightarrow> schema_hash str_hash s = schema_hash str_hash t)
   \<and> schema_eq s s
   \<and> (schema_eq s t = (fst s = fst t))"
  by (simp add: schema_hash_def schema_eq_def)

theorem schema_hash_by_name_witness:
  "schema_hash (\<lambda>x. int (length x)) (1, \<lparr> name = ''created'', cascade = False \<rparr>)
     = schema_hash (\<lambda>x. int (length x)) (2, \<lparr> name = ''created'', cascade = True \<rparr>)
   \<and> schema_eq (1, \<lparr> name = ''created'', cascade = False \<rparr>)
        (1, \<lparr> name = ''created'', cascade = False \<rparr>)"
  using schema_hash_by_name [of "(1, \<lparr> name = ''created'', cascade = False \<rparr>)"
      "(2, \<lparr> name = ''created'', cascade = True \<rparr>)" "\<lambda>x. int (length x)"]
  by simp

text \<open>
  C9 as stated fails: \<^verbatim>\<open>SignalSchema("created", False)\<close> and
  \<^verbatim>\<open>SignalSchema("created", True)\<close> are two objects with the same name, and they are not
  equal.
\<close>

theorem schema_eq_counterexample:
  "name (snd (1::nat, \<lparr> name = ''created'', cascade = False \<rparr>))
     = name (snd (2::nat, \<lparr> name = ''created'', cascade = True \<rparr>))
   \<and> \<not> schema_eq (1, \<lparr> name = ''created'', cascade = False \<rparr>)
          (2, \<lparr> name = ''created'', cascade = True \<rparr>)"
  by (simp add: schema_eq_def)

section \<open>The reserved payload key\<close>

text \<open>
  C10. A type-level or instance-level emission whose keyword payload has the key
  \<^verbatim>\<open>signal\<close> raises TypeError and leaves the state as it was: no handler has run. The
  body of \<^verbatim>\<open>send_cls_signal\<close> passes \<^verbatim>\<open>signal=signal\<close> next to the payload, so the
  same payload raises there too if it ever gets that far.
\<close>

theorem signal_key_reserved:
  assumes "''signal'' \<in> keys kw" and "issubclass s c Signaler"
  shows "(\<exists>msg. call_send_cls_signal c sg sender condition kw s = (Some (TypeError msg), s))
       \<and> (\<exists>msg. call_send_signal k c sg sender condition kw s = (Some (TypeError msg), s))
       \<and> (\<forall>ns i. signals s c = Inr ns \<longrightarrow> map_of ns (name sg) = Some i \<longrightarrow>
             (\<exists>msg. emit c sg sender kw s = (Some (TypeError msg), s)))"
  using assms by (simp add: call_send_cls_signal_def call_send_signal_def emit_def)

theorem signal_key_reserved_witness:
  "''signal'' \<in> keys [(''signal'', Opaque 5)] \<and> issubclass ex_sA ex_A Signaler \<and>
   (\<exists>msg. call_send_cls_signal ex_A ex_created [] True [(''signal'', Opaque 5)] ex_sA
            = (Some (TypeError msg), ex_sA)) \<and>
   (\<exists>msg. call_send_signal 0 ex_A ex_created [] True [(''signal'', Opaque 5)] ex_sA
            = (Some (TypeError msg), ex_sA)) \<and>
   (\<exists>msg. emit ex_A ex_created [Cls ex_A] [(''signal'', Opaque 5)] ex_sA
            = (Some (TypeError msg), ex_sA))"
proof -
  have k: "''signal'' \<in> keys [(''signal'', Opaque 5)]"
    by (simp add: keys_def)
  have i: "issubclass ex_sA ex_A Signaler"
    by (simp add: issubclass_def mro_def ex_sA_fields)
  have t: "signals ex_sA ex_A = Inr [(''created'', 0)]"
    by (simp add: signals_def getattr_signal_namespace_def mro_def ex_sA_fields)
  have n: "map_of [(''created'', 0::nat)] (name ex_created) = Some 0"
    by (simp add: ex_created_def)
  from k i t n show ?thesis
    using signal_key_reserved [OF k i, of ex_created "[]" True 0]
      signal_key_reserved [OF k i, of ex_created "[Cls ex_A]" True 0]
    by simp
qed

end
